theory Spec2Isabelle
  imports Complex_Main "HOL-Library.Sublist"
begin

section \<open>Strings of the host language\<close>

text \<open>
  A source string is modelled as a \<^typ>\<open>string\<close>: one \<^typ>\<open>char\<close> per UTF-16 code
  unit, for texts whose code units are below 256. Indices are \<^typ>\<open>nat\<close>; the value
  \<open>-1\<close> that the source's search functions return for "not found" is \<open>None\<close>.
\<close>

definition is_space :: "char \<Rightarrow> bool" where
  \<comment> \<open>the regular expression class \<open>\s\<close>, restricted to code units below 256:
      TAB, LF, VT, FF, CR, SPACE and NBSP\<close>
  "is_space c = (c \<in> set [CHR 0x09, CHR 0x0A, CHR 0x0B, CHR 0x0C, CHR 0x0D, CHR 0x20, CHR 0xA0])"

definition dquote :: char where
  "dquote = CHR 0x22"

definition squote :: char where
  "squote = CHR 0x27"

definition backtick :: char where
  "backtick = CHR 0x60"

definition backslash :: char where
  "backslash = CHR 0x5C"

fun search :: "string \<Rightarrow> string \<Rightarrow> nat option" where
  \<comment> \<open>offset of the first occurrence of the token \<open>t\<close> in a text\<close>
  "search t [] = (if t = [] then Some 0 else None)"
| "search t (x # xs) =
     (if prefix t (x # xs) then Some 0 else map_option Suc (search t xs))"

definition indexOf :: "string \<Rightarrow> string \<Rightarrow> nat \<Rightarrow> nat option" where
  \<comment> \<open>\<open>s.indexOf(t, k)\<close> for a non-empty token \<open>t\<close>\<close>
  "indexOf s t k = map_option (\<lambda>j. k + j) (search t (drop k s))"

fun lastSearch :: "string \<Rightarrow> string \<Rightarrow> nat option" where
  \<comment> \<open>offset of the last occurrence of the token \<open>t\<close> in a text\<close>
  "lastSearch t [] = (if t = [] then Some 0 else None)"
| "lastSearch t (x # xs) =
     (case lastSearch t xs of
        Some j \<Rightarrow> Some (Suc j)
      | None \<Rightarrow> if prefix t (x # xs) then Some 0 else None)"

definition lastIndexOf :: "string \<Rightarrow> string \<Rightarrow> nat option" where
  \<comment> \<open>\<open>s.lastIndexOf(t)\<close> for a non-empty token \<open>t\<close>\<close>
  "lastIndexOf s t = lastSearch t s"

fun includes_str :: "string \<Rightarrow> string \<Rightarrow> bool" where
  \<comment> \<open>\<open>s.includes(t)\<close>\<close>
  "includes_str [] t = (t = [])"
| "includes_str (x # xs) t = (prefix t (x # xs) \<or> includes_str xs t)"

definition substring :: "string \<Rightarrow> nat \<Rightarrow> nat \<Rightarrow> string" where
  \<comment> \<open>\<open>s.substring(a, b)\<close>: both indices are clamped to the length and swapped when
      \<open>a > b\<close>\<close>
  "substring s a b =
     (let a' = min a (length s); b' = min b (length s)
      in take (max a' b' - min a' b') (drop (min a' b') s))"

definition substringFrom :: "string \<Rightarrow> nat \<Rightarrow> string" where
  \<comment> \<open>\<open>s.substring(a)\<close>\<close>
  "substringFrom s a = drop a s"

definition slice :: "string \<Rightarrow> nat \<Rightarrow> nat \<Rightarrow> string" where
  \<comment> \<open>\<open>s.slice(a, b)\<close> for non-negative indices: empty when \<open>b \<le> a\<close>\<close>
  "slice s a b = take (b - a) (drop a s)"

definition trim :: "string \<Rightarrow> string" where
  \<comment> \<open>\<open>s.trim()\<close>\<close>
  "trim s = rev (dropWhile is_space (rev (dropWhile is_space s)))"

fun collapse_ws :: "bool \<Rightarrow> string \<Rightarrow> string" where
  \<comment> \<open>\<open>s.replace(/\s+/g, ' ')\<close>; the flag says that the run of white space the scan is
      in has already been replaced\<close>
  "collapse_ws inrun [] = []"
| "collapse_ws inrun (c # cs) =
     (if is_space c
      then (if inrun then collapse_ws True cs else CHR '' '' # collapse_ws True cs)
      else c # collapse_ws False cs)"

definition digit_char :: "nat \<Rightarrow> char" where
  "digit_char d = char_of (48 + d)"

fun show_nat :: "nat \<Rightarrow> string" where
  \<comment> \<open>the decimal rendering of a non-negative integer, as string interpolation gives it\<close>
  "show_nat n = (if n < 10 then [digit_char n] else show_nat (n div 10) @ [digit_char (n mod 10)])"

declare show_nat.simps [simp del]

section \<open>Bracket Matcher\<close>

definition is_quote :: "char \<Rightarrow> bool" where
  \<comment> \<open>the test for a double quote, a single quote or a backtick\<close>
  "is_quote char = (char = dquote \<or> char = squote \<or> char = backtick)"

text \<open>
  \<open>findMatchingBracket\<close>: the \<open>for\<close> loop over \<open>i\<close> with the variables \<open>depth\<close>,
  \<open>inString\<close> and \<open>stringChar\<close>. The two string variables change together
  (\<open>inString\<close> is true exactly when \<open>stringChar\<close> is not \<open>null\<close>), so they are one
  \<^typ>\<open>char option\<close>. The result \<open>-1\<close> is \<open>None\<close>.
\<close>

function findMatchingBracket_loop :: "string \<Rightarrow> nat \<Rightarrow> int \<Rightarrow> char option \<Rightarrow> nat option" where
  "findMatchingBracket_loop content i depth stringChar =
     (if i < length content then
        (let char = content ! i in
         case stringChar of
           Some q \<Rightarrow>
             if char = backslash then findMatchingBracket_loop content (i + 2) depth stringChar
             else if char = q then findMatchingBracket_loop content (i + 1) depth None
             else findMatchingBracket_loop content (i + 1) depth stringChar
         | None \<Rightarrow>
             if is_quote char
             then findMatchingBracket_loop content (i + 1) depth (Some char)
             else if char = CHR ''[''
             then findMatchingBracket_loop content (i + 1) (depth + 1) None
             else if char = CHR '']''
             then (if depth - 1 = 0 then Some i
                   else findMatchingBracket_loop content (i + 1) (depth - 1) None)
             else findMatchingBracket_loop content (i + 1) depth None)
      else None)"
  by pat_completeness auto
termination
  by (relation "measure (\<lambda>(content, i, depth, stringChar). length content - i)") auto

declare findMatchingBracket_loop.simps [simp del]

definition findMatchingBracket :: "string \<Rightarrow> nat \<Rightarrow> nat option" where
  "findMatchingBracket content startIndex = findMatchingBracket_loop content startIndex 0 None"

section \<open>Call Extractor\<close>

definition pushToken :: string where
  "pushToken = ''self.__next_f.push(''"

function skip_ws :: "string \<Rightarrow> nat \<Rightarrow> nat" where
  \<comment> \<open>\<open>while (cursor < content.length && /\s/.test(content[cursor])) cursor++\<close>\<close>
  "skip_ws content cursor =
     (if cursor < length content \<and> is_space (content ! cursor)
      then skip_ws content (cursor + 1) else cursor)"
  by pat_completeness auto
termination
  by (relation "measure (\<lambda>(content, cursor). length content - cursor)") auto

declare skip_ws.simps [simp del]

lemma search_bound: "search t xs = Some j \<Longrightarrow> j + length t \<le> length xs"
proof (induction xs arbitrary: j)
  case Nil
  then show ?case by (simp split: if_splits)
next
  case (Cons x xs)
  show ?case
  proof (cases "prefix t (x # xs)")
    case True
    with Cons.prems have "j = 0" by simp
    with True show ?thesis by (auto dest: prefix_length_le)
  next
    case False
    with Cons.prems obtain j' where "search t xs = Some j'" "j = Suc j'" by auto
    with Cons.IH show ?thesis by fastforce
  qed
qed

lemma indexOf_ge: "indexOf s t k = Some start \<Longrightarrow> k \<le> start"
  by (auto simp: indexOf_def)

lemma skip_ws_ge: "cursor \<le> skip_ws content cursor"
proof (induction content cursor rule: skip_ws.induct)
  case (1 content cursor)
  show ?case
  proof (cases "cursor < length content \<and> is_space (content ! cursor)")
    case True
    with 1 have "cursor + 1 \<le> skip_ws content (cursor + 1)" by simp
    moreover from True have "skip_ws content cursor = skip_ws content (cursor + 1)"
      by (subst skip_ws.simps) simp
    ultimately show ?thesis by simp
  next
    case False
    then show ?thesis by (subst skip_ws.simps) auto
  qed
qed

text \<open>The branches of the matcher's loop, one equation each.\<close>

lemma fmb_end:
  "\<not> i < length content \<Longrightarrow> findMatchingBracket_loop content i depth stringChar = None"
  by (subst findMatchingBracket_loop.simps) simp

lemma fmb_escape:
  "i < length content \<Longrightarrow> content ! i = backslash \<Longrightarrow>
   findMatchingBracket_loop content i depth (Some q)
     = findMatchingBracket_loop content (i + 2) depth (Some q)"
  by (subst findMatchingBracket_loop.simps) simp

lemma fmb_unquote:
  "i < length content \<Longrightarrow> content ! i \<noteq> backslash \<Longrightarrow> content ! i = q \<Longrightarrow>
   findMatchingBracket_loop content i depth (Some q)
     = findMatchingBracket_loop content (i + 1) depth None"
  by (subst findMatchingBracket_loop.simps) simp

lemma fmb_inside:
  "i < length content \<Longrightarrow> content ! i \<noteq> backslash \<Longrightarrow> content ! i \<noteq> q \<Longrightarrow>
   findMatchingBracket_loop content i depth (Some q)
     = findMatchingBracket_loop content (i + 1) depth (Some q)"
  by (subst findMatchingBracket_loop.simps) simp

lemma fmb_quote:
  "i < length content \<Longrightarrow> is_quote (content ! i) \<Longrightarrow>
   findMatchingBracket_loop content i depth None
     = findMatchingBracket_loop content (i + 1) depth (Some (content ! i))"
  by (subst findMatchingBracket_loop.simps) simp

lemma fmb_open:
  "i < length content \<Longrightarrow> content ! i = CHR ''['' \<Longrightarrow>
   findMatchingBracket_loop content i depth None
     = findMatchingBracket_loop content (i + 1) (depth + 1) None"
  by (subst findMatchingBracket_loop.simps)
     (simp add: is_quote_def dquote_def squote_def backtick_def)

lemma fmb_close_found:
  "i < length content \<Longrightarrow> content ! i = CHR '']'' \<Longrightarrow> depth - 1 = 0 \<Longrightarrow>
   findMatchingBracket_loop content i depth None = Some i"
  by (subst findMatchingBracket_loop.simps)
     (simp add: is_quote_def dquote_def squote_def backtick_def)

lemma fmb_close:
  "i < length content \<Longrightarrow> content ! i = CHR '']'' \<Longrightarrow> depth - 1 \<noteq> 0 \<Longrightarrow>
   findMatchingBracket_loop content i depth None
     = findMatchingBracket_loop content (i + 1) (depth - 1) None"
  by (subst findMatchingBracket_loop.simps)
     (simp add: is_quote_def dquote_def squote_def backtick_def)

lemma fmb_code:
  "i < length content \<Longrightarrow> \<not> is_quote (content ! i) \<Longrightarrow> content ! i \<noteq> CHR ''['' \<Longrightarrow>
   content ! i \<noteq> CHR '']'' \<Longrightarrow>
   findMatchingBracket_loop content i depth None
     = findMatchingBracket_loop content (i + 1) depth None"
  by (subst findMatchingBracket_loop.simps) simp

lemma findMatchingBracket_loop_ge:
  "findMatchingBracket_loop content i depth stringChar = Some k \<Longrightarrow> i \<le> k \<and> k < length content"
proof (induction "length content - i" arbitrary: i depth stringChar rule: less_induct)
  case less
  show ?case
  proof (cases "i < length content")
    case False
    with less.prems show ?thesis by (simp add: fmb_end)
  next
    case lt: True
    have step: "i \<le> k \<and> k < length content"
      if "findMatchingBracket_loop content (i + n) d s = Some k" "0 < n" for n d s
    proof -
      from lt that(2) have "length content - (i + n) < length content - i" by simp
      from less.hyps [OF this that(1)] show ?thesis by simp
    qed
    show ?thesis
    proof (cases stringChar)
      case (Some q)
      consider "content ! i = backslash"
        | "content ! i \<noteq> backslash" "content ! i = q"
        | "content ! i \<noteq> backslash" "content ! i \<noteq> q" by blast
      then show ?thesis
      proof cases
        case 1
        with less.prems lt Some
        have "findMatchingBracket_loop content (i + 2) depth (Some q) = Some k"
          by (simp add: fmb_escape)
        from step [OF this] show ?thesis by simp
      next
        case 2
        with less.prems lt Some
        have "findMatchingBracket_loop content (i + 1) depth None = Some k"
          by (simp add: fmb_unquote)
        from step [OF this] show ?thesis by simp
      next
        case 3
        with less.prems lt Some
        have "findMatchingBracket_loop content (i + 1) depth (Some q) = Some k"
          by (simp add: fmb_inside)
        from step [OF this] show ?thesis by simp
      qed
    next
      case None
      consider "is_quote (content ! i)"
        | "content ! i = CHR ''[''"
        | "content ! i = CHR '']''" "depth - 1 = 0"
        | "content ! i = CHR '']''" "depth - 1 \<noteq> 0"
        | "\<not> is_quote (content ! i)" "content ! i \<noteq> CHR ''[''" "content ! i \<noteq> CHR '']''"
        by blast
      then show ?thesis
      proof cases
        case 1
        with less.prems lt None
        have "findMatchingBracket_loop content (i + 1) depth (Some (content ! i)) = Some k"
          by (simp add: fmb_quote)
        from step [OF this] show ?thesis by simp
      next
        case 2
        with less.prems lt None
        have "findMatchingBracket_loop content (i + 1) (depth + 1) None = Some k"
          by (simp add: fmb_open)
        from step [OF this] show ?thesis by simp
      next
        case 3
        with less.prems lt None show ?thesis by (simp add: fmb_close_found)
      next
        case 4
        with less.prems lt None
        have "findMatchingBracket_loop content (i + 1) (depth - 1) None = Some k"
          by (simp add: fmb_close)
        from step [OF this] show ?thesis by simp
      next
        case 5
        with less.prems lt None
        have "findMatchingBracket_loop content (i + 1) depth None = Some k"
          by (simp add: fmb_code)
        from step [OF this] show ?thesis by simp
      qed
    qed
  qed
qed

lemma findMatchingBracket_ge:
  "findMatchingBracket content startIndex = Some k \<Longrightarrow> startIndex \<le> k \<and> k < length content"
  unfolding findMatchingBracket_def by (rule findMatchingBracket_loop_ge)

text \<open>
  \<open>extractPushCalls\<close>: the \<open>while\<close> loop over \<open>searchIndex\<close> with the accumulator
  \<open>calls\<close>. Each \<open>continue\<close> and the end of the body are recursive calls.
\<close>

function extractPushCalls_loop :: "string \<Rightarrow> nat \<Rightarrow> string list \<Rightarrow> string list" where
  "extractPushCalls_loop content searchIndex calls =
     (if searchIndex < length content then
        (case indexOf content pushToken searchIndex of
           None \<Rightarrow> calls
         | Some start \<Rightarrow>
             (let cursor = skip_ws content (start + length pushToken) in
              if cursor \<ge> length content \<or> content ! cursor \<noteq> CHR ''[''
              then extractPushCalls_loop content (cursor + 1) calls
              else
                (let arrayStart = cursor in
                 case findMatchingBracket content arrayStart of
                   None \<Rightarrow> extractPushCalls_loop content (arrayStart + 1) calls
                 | Some arrayEnd \<Rightarrow>
                     (let afterArray = skip_ws content (arrayEnd + 1) in
                      if afterArray \<ge> length content \<or> content ! afterArray \<noteq> CHR '')''
                      then extractPushCalls_loop content afterArray calls
                      else
                        (let afterArray1 = afterArray + 1;
                             afterArray2 =
                               (if afterArray1 < length content \<and> content ! afterArray1 = CHR '';''
                                then afterArray1 + 1 else afterArray1);
                             snippet = trim (slice content start afterArray2)
                         in extractPushCalls_loop content afterArray2 (calls @ [snippet]))))))
      else calls)"
  by pat_completeness auto
termination
proof (relation "measure (\<lambda>(content, searchIndex, calls). length content - searchIndex)",
    goal_cases)
  case 1
  show ?case by simp
next
  case (2 content searchIndex calls start cursor)
  from indexOf_ge [OF 2(2)] skip_ws_ge [of "start + length pushToken" content] 2(3)
  have "searchIndex < cursor + 1" by simp
  with 2(1) show ?case by simp
next
  case (3 content searchIndex calls start cursor arrayStart)
  from indexOf_ge [OF 3(2)] skip_ws_ge [of "start + length pushToken" content] 3(3,5)
  have "searchIndex < arrayStart + 1" by simp
  with 3(1) show ?case by simp
next
  case (4 content searchIndex calls start cursor arrayStart arrayEnd afterArray)
  from indexOf_ge [OF 4(2)] skip_ws_ge [of "start + length pushToken" content] 4(3,5)
  have "searchIndex \<le> arrayStart" by simp
  moreover from findMatchingBracket_ge [OF 4(6)] have "arrayStart \<le> arrayEnd" by simp
  moreover from skip_ws_ge [of "arrayEnd + 1" content] 4(7) have "arrayEnd < afterArray" by simp
  ultimately have "searchIndex < afterArray" by simp
  with 4(1) show ?case by simp
next
  case (5 content searchIndex calls start cursor arrayStart arrayEnd afterArray afterArray1 afterArray2 snippet)
  from indexOf_ge [OF 5(2)] skip_ws_ge [of "start + length pushToken" content] 5(3,5)
  have "searchIndex \<le> arrayStart" by simp
  moreover from findMatchingBracket_ge [OF 5(6)] have "arrayStart \<le> arrayEnd" by simp
  moreover from skip_ws_ge [of "arrayEnd + 1" content] 5(7) have "arrayEnd < afterArray" by simp
  moreover from 5(9,10) have "afterArray < afterArray2" by (simp split: if_splits)
  ultimately have "searchIndex < afterArray2" by simp
  with 5(1) show ?case by simp
qed

declare extractPushCalls_loop.simps [simp del]

definition extractPushCalls :: "string \<Rightarrow> string list" where
  "extractPushCalls content = extractPushCalls_loop content 0 []"

section \<open>Decoded values and the host's JSON functions\<close>

text \<open>
  The value that \<open>JSON.parse\<close> returns. An object is the list of its own properties in
  the order the host enumerates them, every key once. A finite number is the
  numeric value of the double, a rational; \<open>JInfinity\<close> is the double \<open>+Infinity\<close> (for
  \<open>True\<close>) or \<open>-Infinity\<close>, which \<open>JSON.parse\<close> gives for a number literal beyond the
  range of the doubles, such as \<open>1e999\<close>.
\<close>

datatype json =
    JNull
  | JBool bool
  | JNumber rat
  | JInfinity bool
  | JString string
  | JArray "json list"
  | JObject "(string \<times> json) list"

text \<open>
  \<open>JSON.parse\<close> and \<open>JSON.stringify\<close> are functions of the host, not of this program:
  every function that calls them takes them as the parameter \<open>h\<close>. \<open>JSON_parse\<close> returns
  \<open>Inl message\<close> where the host throws a \<open>SyntaxError\<close> with that message.
\<close>

record host =
  JSON_parse :: "string \<Rightarrow> string + json"
  JSON_stringify :: "json \<Rightarrow> string"

fun truthy :: "json \<Rightarrow> bool" where
  \<comment> \<open>the host's conversion of a value to a boolean\<close>
  "truthy JNull = False"
| "truthy (JBool b) = b"
| "truthy (JNumber n) = (n \<noteq> 0)"
| "truthy (JInfinity positive) = True"
| "truthy (JString s) = (s \<noteq> [])"
| "truthy (JArray xs) = True"
| "truthy (JObject kvs) = True"

section \<open>Data model\<close>

datatype ParsedComponent =
  ParsedComponent
    (type: string)
    (component: json)
    (props: "(string \<times> json) list")
    (children: "Child list option")
and Child =
    ChildComponent ParsedComponent
  | ChildText string

datatype DataType = ComponentData | ModuleLoading | Unknown

record ParseResult =
  success :: bool
  components :: "ParsedComponent list"
  error :: "string option"
  dataType :: "DataType option"
  debugInfo :: "string option"

record IndexedParseResult = ParseResult +
  index :: nat
  snippetPreview :: string

record AggregatedParseResult =
  totalScripts :: nat
  successCount :: nat
  failureCount :: nat
  moduleLoadingCount :: nat
  results :: "IndexedParseResult list"
  combinedComponents :: "ParsedComponent list"

section \<open>Payload Classifier\<close>

definition is_hex_lower :: "char \<Rightarrow> bool" where
  \<comment> \<open>the class \<open>[0-9a-f]\<close>\<close>
  "is_hex_lower c = (c \<in> set ''0123456789abcdef'')"

definition is_alnum_ci :: "char \<Rightarrow> bool" where
  \<comment> \<open>the class \<open>[0-9a-z]\<close> under the flag \<open>i\<close>\<close>
  "is_alnum_ci c =
     (c \<in> set ''0123456789abcdefghijklmnopqrstuvwxyzABCDEFGHIJKLMNOPQRSTUVWXYZ'')"

definition test_key_then :: "(char \<Rightarrow> bool) \<Rightarrow> string \<Rightarrow> string \<Rightarrow> bool" where
  \<comment> \<open>\<open>/^[cls]+lit/.test(data)\<close> for a literal \<open>lit\<close> whose first character is outside the
      class: the longest run of class characters at the start is not empty and \<open>lit\<close>
      follows it\<close>
  "test_key_then cls lit data =
     (takeWhile cls data \<noteq> [] \<and> prefix lit (dropWhile cls data))"

definition detectDataType :: "string \<Rightarrow> DataType" where
  "detectDataType data =
     (if test_key_then is_hex_lower '':I['' data \<or> includes_str data ''static/chunks/''
      then ModuleLoading
      else if test_key_then is_alnum_ci '':['' data
      then ComponentData
      else Unknown)"

section \<open>Payload Decoder\<close>

definition pushPrefix :: string where
  "pushPrefix = ''self.__next_f.push([''"

definition pushSuffix :: string where
  "pushSuffix = ''])''"

definition strip_newline_before_close :: "string \<Rightarrow> string" where
  \<comment> \<open>\<open>content.replace(/\\n(?="\]$)/, '')\<close>: the lookahead ends at the end of the text,
      so the only place the pattern matches is four characters before the end\<close>
  "strip_newline_before_close content =
     (if drop (length content - 4) content = [backslash, CHR ''n'', dquote, CHR '']'']
      then take (length content - 4) content @ [dquote, CHR '']'']
      else content)"

definition strip_newline_at_end :: "string \<Rightarrow> string" where
  \<comment> \<open>\<open>content.replace(/\\n$/, '')\<close>\<close>
  "strip_newline_at_end content =
     (if drop (length content - 2) content = [backslash, CHR ''n'']
      then take (length content - 2) content
      else content)"

definition extractDataFromScript :: "host \<Rightarrow> string \<Rightarrow> string + string" where
  \<comment> \<open>\<open>Inl message\<close> is \<open>throw new Error(message)\<close>\<close>
  "extractDataFromScript h scriptContent =
     (case indexOf scriptContent pushPrefix 0 of
        None \<Rightarrow> Inl ''Invalid Next.js script format''
      | Some startIndex \<Rightarrow>
          (let contentStart = startIndex + length pushPrefix in
           case lastIndexOf scriptContent pushSuffix of
             None \<Rightarrow> Inl ''Invalid Next.js script format - mismatched brackets''
           | Some contentEnd \<Rightarrow>
               if contentEnd \<le> contentStart
               then Inl ''Invalid Next.js script format - mismatched brackets''
               else
                 (let content0 = ''['' @ substring scriptContent contentStart contentEnd @ '']'';
                      content1 = strip_newline_before_close content0;
                      content = strip_newline_at_end content1
                  in case JSON_parse h content of
                       Inl message \<Rightarrow>
                         Inl (''Unable to parse script content as JSON: '' @ message)
                     | Inr result \<Rightarrow> Inr (JSON_stringify h result))))"

section \<open>Tree Builder\<close>

definition textNode :: "string \<Rightarrow> ParsedComponent" where
  \<comment> \<open>\<open>{ type: 'text', component: 'text', props: { content: data } }\<close>\<close>
  "textNode s = ParsedComponent ''text'' (JString ''text'') [(''content'', JString s)] None"

definition propsOf :: "json list \<Rightarrow> json" where
  \<comment> \<open>\<open>componentArray[3] || {}\<close>: an index past the end reads \<open>undefined\<close>\<close>
  "propsOf componentArray =
     (if 3 < length componentArray \<and> truthy (componentArray ! 3)
      then componentArray ! 3 else JObject [])"

definition get_children :: "json \<Rightarrow> json option" where
  \<comment> \<open>\<open>props.children\<close>, \<open>None\<close> for \<open>undefined\<close>: only an object can have the property\<close>
  "get_children props' = (case props' of JObject kvs \<Rightarrow> map_of kvs ''children'' | _ \<Rightarrow> None)"

definition spread :: "json \<Rightarrow> (string \<times> json) list" where
  \<comment> \<open>\<open>{ ...props }\<close>: the own enumerable properties; an array and a string have their
      indices, a number and a boolean have none\<close>
  "spread props' =
     (case props' of
        JObject kvs \<Rightarrow> kvs
      | JArray xs \<Rightarrow> zip (map show_nat [0..<length xs]) xs
      | JString s \<Rightarrow> zip (map show_nat [0..<length s]) (map (\<lambda>c. JString [c]) s)
      | _ \<Rightarrow> [])"

definition delete_key :: "string \<Rightarrow> (string \<times> json) list \<Rightarrow> (string \<times> json) list" where
  \<comment> \<open>\<open>delete obj[k]\<close>\<close>
  "delete_key k kvs = filter (\<lambda>(k', v). k' \<noteq> k) kvs"

lemma size_map_of: "map_of kvs k = Some v \<Longrightarrow> size v < Suc (size_list (size_prod (\<lambda>_. 0) size) kvs)"
  by (induction kvs) (auto split: if_splits)

lemma size_in_set: "x \<in> set xs \<Longrightarrow> size (x::json) < size_list size xs"
  by (induction xs) auto

lemma size_get_children:
  assumes "get_children (propsOf componentArray) = Some v"
  shows "size v < size_list size componentArray"
proof -
  from assms obtain kvs where p: "propsOf componentArray = JObject kvs"
    and m: "map_of kvs ''children'' = Some v"
    by (auto simp: get_children_def split: json.splits)
  from m have "kvs \<noteq> []" by auto
  with p have i: "3 < length componentArray" and e: "componentArray ! 3 = JObject kvs"
    by (auto simp: propsOf_def split: if_splits)
  from size_map_of [OF m] have "size v < size (JObject kvs)" by simp
  moreover from i have "size (componentArray ! 3) < size_list size componentArray"
    by (intro size_in_set) simp
  ultimately show ?thesis using e by simp
qed

function parseComponentStructure :: "json \<Rightarrow> ParsedComponent list"
  and parseComponent :: "json list \<Rightarrow> ParsedComponent option"
  and parseChildren :: "json \<Rightarrow> Child list"
where
  "parseComponentStructure data =
     (case data of
        JString s \<Rightarrow> [textNode s]
      | JArray xs \<Rightarrow>
          if length xs > 0 \<and> xs ! 0 = JString ''$''
          then (case parseComponent xs of Some parsed \<Rightarrow> [parsed] | None \<Rightarrow> [])
          else
            concat (map (\<lambda>item.
              case item of
                JString s \<Rightarrow> [textNode s]
              | JArray ys \<Rightarrow>
                  (case parseComponent ys of
                     Some parsed \<Rightarrow> [parsed]
                   | None \<Rightarrow> parseComponentStructure item)
              | _ \<Rightarrow> []) xs)
      | _ \<Rightarrow> [])"
| "parseComponent componentArray =
     (if length componentArray < 3 \<or> componentArray ! 0 \<noteq> JString ''$''
      then None
      else
        (let componentType = componentArray ! 1;
             props' = propsOf componentArray
         in case get_children props' of
              Some c \<Rightarrow>
                if truthy c
                then Some (ParsedComponent ''component'' componentType
                             (delete_key ''children'' (spread props'))
                             (Some (parseChildren c)))
                else Some (ParsedComponent ''component'' componentType (spread props') None)
            | None \<Rightarrow> Some (ParsedComponent ''component'' componentType (spread props') None)))"
| "parseChildren children' =
     (case children' of
        JString s \<Rightarrow> [ChildText s]
      | JArray xs \<Rightarrow>
          if length xs > 0 \<and> xs ! 0 = JString ''$''
          then (case parseComponent xs of Some single \<Rightarrow> [ChildComponent single] | None \<Rightarrow> [])
          else
            concat (map (\<lambda>child.
              case child of
                JString s \<Rightarrow> [ChildText s]
              | JArray ys \<Rightarrow>
                  (case parseComponent ys of
                     Some parsed \<Rightarrow> [ChildComponent parsed]
                   | None \<Rightarrow> parseChildren child)
              | _ \<Rightarrow> map ChildComponent (parseComponentStructure (JArray [child]))) xs)
      | _ \<Rightarrow> [])"
  by pat_completeness auto
termination
  apply (relation "measure (\<lambda>x. case x of
          Inl data \<Rightarrow> 3 * size data + 1
        | Inr (Inl componentArray) \<Rightarrow> 3 * size (JArray componentArray)
        | Inr (Inr c) \<Rightarrow> 3 * size c + 2)")
  apply (auto dest: size_in_set size_get_children)
  done

declare parseComponentStructure.simps [simp del]
declare parseComponent.simps [simp del]
declare parseChildren.simps [simp del]

section \<open>Per-call pipeline\<close>

text \<open>
  The chain of conditions that \<open>parseScriptContentDetailed\<close> runs on a payload string,
  as the branch it selects: the early return for module metadata, the parse of the text
  after the first colon, the second parse attempt on the unmodified string, and no
  decoding at all.
\<close>

datatype Branch = ModuleBranch | ColonBranch | FallbackBranch | RawBranch

definition payloadBranch :: "string \<Rightarrow> Branch" where
  "payloadBranch componentData =
     (let dataType = detectDataType componentData in
      if dataType = ModuleLoading then ModuleBranch
      else if dataType = ComponentData \<and> includes_str componentData '':'' then ColonBranch
      else if dataType = ComponentData then FallbackBranch
      else RawBranch)"

definition componentSuccess :: "json \<Rightarrow> ParseResult" where
  \<comment> \<open>step 4: the Tree Builder on the payload\<close>
  "componentSuccess componentData =
     \<lparr>success = True, components = parseComponentStructure componentData, error = None,
      dataType = Some ComponentData, debugInfo = None\<rparr>"

definition parseStringPayload :: "host \<Rightarrow> string \<Rightarrow> ParseResult" where
  "parseStringPayload h componentData =
     (case payloadBranch componentData of
        ModuleBranch \<Rightarrow>
          \<lparr>success = True, components = [], error = None, dataType = Some ModuleLoading,
           debugInfo = Some (''Data starts with: '' @ substring componentData 0 50 @ ''...'')\<rparr>
      | ColonBranch \<Rightarrow>
          (let colonNext = (case indexOf componentData '':'' 0 of None \<Rightarrow> 0 | Some colonIndex \<Rightarrow> colonIndex + 1);
               dataAfterColon = substringFrom componentData colonNext
           in case JSON_parse h dataAfterColon of
                Inr v \<Rightarrow> componentSuccess v
              | Inl message \<Rightarrow>
                  \<lparr>success = False, components = [],
                   error = Some ''Failed to parse component data structure'', dataType = None,
                   debugInfo = Some (''Parse error: '' @ message)\<rparr>)
      | FallbackBranch \<Rightarrow>
          (case JSON_parse h componentData of
             Inr v \<Rightarrow> componentSuccess v
           | Inl message \<Rightarrow> componentSuccess (JString componentData))
      | RawBranch \<Rightarrow> componentSuccess (JString componentData))"

definition invalidStructure :: "host \<Rightarrow> json \<Rightarrow> ParseResult" where
  "invalidStructure h parsedData =
     \<lparr>success = False, components = [],
      error = Some ''Invalid data structure: Expected array with at least 2 elements'',
      dataType = None,
      debugInfo = Some (''Got: '' @ substring (JSON_stringify h parsedData) 0 100 @ ''...'')\<rparr>"

definition parseScriptContentDetailed_try :: "host \<Rightarrow> string \<Rightarrow> string + ParseResult" where
  \<comment> \<open>the body of the \<open>try\<close> block: \<open>Inl message\<close> is an exception thrown inside it\<close>
  "parseScriptContentDetailed_try h scriptContent =
     (case extractDataFromScript h scriptContent of
        Inl message \<Rightarrow> Inl message
      | Inr cleanContent \<Rightarrow>
          (case JSON_parse h cleanContent of
             Inl message \<Rightarrow> Inl message
           | Inr parsedData \<Rightarrow>
               (case parsedData of
                  JArray xs \<Rightarrow>
                    if length xs < 2 then Inr (invalidStructure h parsedData)
                    else
                      (case xs ! 1 of
                         JString componentData \<Rightarrow> Inr (parseStringPayload h componentData)
                       | componentData \<Rightarrow> Inr (componentSuccess componentData))
                | _ \<Rightarrow> Inr (invalidStructure h parsedData))))"

definition parseScriptContentDetailed :: "host \<Rightarrow> string \<Rightarrow> ParseResult" where
  \<comment> \<open>the \<open>try\<close> block with its \<open>catch\<close>\<close>
  "parseScriptContentDetailed h scriptContent =
     (case parseScriptContentDetailed_try h scriptContent of
        Inr result \<Rightarrow> result
      | Inl errorMessage \<Rightarrow>
          \<lparr>success = False, components = [],
           error = Some (''Parse failed: '' @ errorMessage), dataType = None,
           debugInfo = Some (''Input length: '' @ show_nat (length scriptContent)
                               @ '', Error at parsing stage'')\<rparr>)"

section \<open>Aggregator\<close>

definition indexed :: "ParseResult \<Rightarrow> nat \<Rightarrow> string \<Rightarrow> IndexedParseResult" where
  \<comment> \<open>\<open>{ ...parseResult, index, snippetPreview }\<close>\<close>
  "indexed parseResult i preview =
     \<lparr>success = success parseResult, components = components parseResult,
      error = error parseResult, dataType = dataType parseResult,
      debugInfo = debugInfo parseResult, index = i, snippetPreview = preview\<rparr>"

fun forEach_pushCalls ::
  "host \<Rightarrow> string list \<Rightarrow> nat \<Rightarrow> ParsedComponent list \<times> IndexedParseResult list
     \<Rightarrow> ParsedComponent list \<times> IndexedParseResult list" where
  \<comment> \<open>the callback of \<open>pushCalls.forEach\<close>, run on the snippets from index \<open>i\<close> on; the
      state is the pair of the arrays \<open>combinedComponents\<close> and \<open>results\<close>\<close>
  "forEach_pushCalls h [] i acc = acc"
| "forEach_pushCalls h (snippet # rest) i (combined, res) =
     (let parseResult = parseScriptContentDetailed h snippet;
          snippetPreview = substring (collapse_ws False snippet) 0 120;
          combined' =
            (if success parseResult then combined @ components parseResult else combined);
          res' = res @ [indexed parseResult i snippetPreview]
      in forEach_pushCalls h rest (i + 1) (combined', res'))"

definition parseDocumentContent :: "host \<Rightarrow> string \<Rightarrow> AggregatedParseResult" where
  "parseDocumentContent h content =
     (let pushCalls = extractPushCalls content in
      if length pushCalls = 0
      then \<lparr>totalScripts = 0, successCount = 0, failureCount = 0, moduleLoadingCount = 0,
            results = [], combinedComponents = []\<rparr>
      else
        (let (combinedComponents, results) = forEach_pushCalls h pushCalls 0 ([], []);
             successCount =
               length (filter (\<lambda>result. success result \<and> dataType result = Some ComponentData) results);
             moduleLoadingCount =
               length (filter (\<lambda>result. dataType result = Some ModuleLoading) results);
             failureCount = length (filter (\<lambda>result. \<not> success result) results)
         in \<lparr>totalScripts = length results, successCount = successCount,
              failureCount = failureCount, moduleLoadingCount = moduleLoadingCount,
              results = results, combinedComponents = combinedComponents\<rparr>))"

section \<open>Reference definitions for the specification's wording\<close>

text \<open>
  A text matches the regular expression \<open>^[cls]+lit\<close> when it starts with a non-empty
  key of class characters that the literal follows.
\<close>

definition matches_key_regex :: "(char \<Rightarrow> bool) \<Rightarrow> string \<Rightarrow> string \<Rightarrow> bool" where
  "matches_key_regex cls lit s =
     (\<exists>key rest. s = key @ lit @ rest \<and> key \<noteq> [] \<and> (\<forall>c\<in>set key. cls c))"


text \<open>
  A text seen as the matcher sees it: a sequence of pieces, each a code character (any
  character but a quote) or a complete string literal with its quote character and its
  body. In the body of a literal a backslash takes the next character with it, and the
  quote character does not occur otherwise.
\<close>

datatype piece = Code char | Literal char string

fun render :: "piece list \<Rightarrow> string" where
  "render [] = []"
| "render (Code c # ps) = c # render ps"
| "render (Literal q body # ps) = q # body @ q # render ps"

fun literal_body :: "char \<Rightarrow> string \<Rightarrow> bool" where
  "literal_body q [] = True"
| "literal_body q (c # cs) =
     (if c = backslash then (case cs of [] \<Rightarrow> False | d # ds \<Rightarrow> literal_body q ds)
      else c \<noteq> q \<and> literal_body q cs)"

fun well_formed :: "piece \<Rightarrow> bool" where
  "well_formed (Code c) = (\<not> is_quote c)"
| "well_formed (Literal q body) = (is_quote q \<and> literal_body q body)"

text \<open>
  The bracket depth of the code characters alone, literals left out: \<open>closes_at_end\<close>
  says that the depth first returns to zero at the last piece, \<open>never_closes\<close> that it
  never returns to zero.
\<close>

fun closes_at_end :: "int \<Rightarrow> piece list \<Rightarrow> bool" where
  "closes_at_end depth [] = False"
| "closes_at_end depth (Literal q body # ps) = closes_at_end depth ps"
| "closes_at_end depth (Code c # ps) =
     (if c = CHR ''['' then closes_at_end (depth + 1) ps
      else if c = CHR '']'' then (if depth - 1 = 0 then ps = [] else closes_at_end (depth - 1) ps)
      else closes_at_end depth ps)"

fun never_closes :: "int \<Rightarrow> piece list \<Rightarrow> bool" where
  "never_closes depth [] = True"
| "never_closes depth (Literal q body # ps) = never_closes depth ps"
| "never_closes depth (Code c # ps) =
     (if c = CHR ''['' then never_closes (depth + 1) ps
      else if c = CHR '']'' then depth - 1 \<noteq> 0 \<and> never_closes (depth - 1) ps
      else never_closes depth ps)"

text \<open>
  The body of a literal that the text ends in: no closing quote, and a backslash may be
  its last character. \<open>depth_after\<close> is the depth that the code characters of the pieces
  leave behind.
\<close>

fun open_body :: "char \<Rightarrow> string \<Rightarrow> bool" where
  "open_body q [] = True"
| "open_body q (c # cs) =
     (if c = backslash then (case cs of [] \<Rightarrow> True | d # ds \<Rightarrow> open_body q ds)
      else c \<noteq> q \<and> open_body q cs)"

fun depth_after :: "int \<Rightarrow> piece list \<Rightarrow> int" where
  "depth_after depth [] = depth"
| "depth_after depth (Literal q body # ps) = depth_after depth ps"
| "depth_after depth (Code c # ps) =
     (if c = CHR ''['' then depth_after (depth + 1) ps
      else if c = CHR '']'' then depth_after (depth - 1) ps
      else depth_after depth ps)"

text \<open>
  One iteration of the extractor's loop after a hit at \<open>start\<close>: the next search index
  and the snippet found, if any. It restates the loop body so that the loop can be
  unfolded one hit at a time.
\<close>

definition after_hit :: "string \<Rightarrow> nat \<Rightarrow> nat \<times> string list" where
  "after_hit content start =
     (let cursor = skip_ws content (start + length pushToken) in
      if cursor \<ge> length content \<or> content ! cursor \<noteq> CHR ''['' then (cursor + 1, [])
      else
        (case findMatchingBracket content cursor of
           None \<Rightarrow> (cursor + 1, [])
         | Some arrayEnd \<Rightarrow>
             (let afterArray = skip_ws content (arrayEnd + 1) in
              if afterArray \<ge> length content \<or> content ! afterArray \<noteq> CHR '')''
              then (afterArray, [])
              else
                (let afterArray1 = afterArray + 1;
                     afterArray2 =
                       (if afterArray1 < length content \<and> content ! afterArray1 = CHR '';''
                        then afterArray1 + 1 else afterArray1)
                 in (afterArray2, [trim (slice content start afterArray2)])))))"

section \<open>A sample host and document\<close>

text \<open>
  The values of the host's \<open>JSON.parse\<close> and \<open>JSON.stringify\<close> at the texts of a small
  document with four calls: a text payload, an argument array with one element, module
  metadata, and an argument that is not JSON.
\<close>

definition sample_parse :: "string \<Rightarrow> string + json" where
  \<open>sample_parse text =
     (if text = ''[1,"hello"]'' then Inr (JArray [JNumber 1, JString ''hello''])
      else if text = ''[2]'' then Inr (JArray [JNumber 2])
      else if text = ''[3,"1:I[]"]'' then Inr (JArray [JNumber 3, JString ''1:I[]''])
      else Inl ''Unexpected token'')\<close>

definition sample_stringify :: "json \<Rightarrow> string" where
  \<open>sample_stringify v =
     (if v = JArray [JNumber 1, JString ''hello''] then ''[1,"hello"]''
      else if v = JArray [JNumber 2] then ''[2]''
      else if v = JArray [JNumber 3, JString ''1:I[]''] then ''[3,"1:I[]"]''
      else ''null'')\<close>

definition sample_host :: host where
  "sample_host = \<lparr>JSON_parse = sample_parse, JSON_stringify = sample_stringify\<rparr>"

definition sample_document :: string where
  \<open>sample_document =
     ''self.__next_f.push([1,"hello"])self.__next_f.push([2]);self.__next_f.push([3,"1:I[]"]) self.__next_f.push([x])''\<close>

section \<open>The host's JSON text functions, after the language specification\<close>

text \<open>
  \<open>formatAsReadableJson\<close> returns \<open>JSON.stringify(components, null, 2)\<close>. What that text
  is, and what \<open>JSON.parse\<close> makes of it, is laid down by the language specification
  (ECMA-262, the clauses on \<open>JSON.stringify\<close> and \<open>JSON.parse\<close>); this section follows it
  on the values of type \<open>json\<close>. Two functions of the host stay parameters:
  \<open>Number_toString\<close> is the decimal text of a finite double (\<open>Number::toString\<close>), and
  \<open>Number_round\<close> is the double that the exact value of a number literal is rounded to,
  \<open>None\<close> where that value is beyond the range of the doubles and the host gives an
  infinity.
\<close>

record numerics =
  Number_toString :: "rat \<Rightarrow> string"
  Number_round :: "rat \<Rightarrow> rat option"

definition newline :: char where
  "newline = CHR 0x0A"

text \<open>
  \<open>QuoteJSONString\<close>: the quotation mark, the reverse solidus and the control characters
  are escaped with a reverse solidus, the control characters without a short form as
  \<open>u00\<close> and two lower-case hexadecimal digits after it.
\<close>

definition hex_digit :: "nat \<Rightarrow> char" where
  "hex_digit d = (if d < 10 then char_of (48 + d) else char_of (87 + d))"

definition escape_char :: "char \<Rightarrow> string" where
  "escape_char c =
     (if c = CHR 0x08 then [backslash, CHR ''b'']
      else if c = CHR 0x09 then [backslash, CHR ''t'']
      else if c = CHR 0x0A then [backslash, CHR ''n'']
      else if c = CHR 0x0C then [backslash, CHR ''f'']
      else if c = CHR 0x0D then [backslash, CHR ''r'']
      else if c = dquote then [backslash, dquote]
      else if c = backslash then [backslash, backslash]
      else if (of_char c :: nat) < 32
      then [backslash, CHR ''u'', CHR ''0'', CHR ''0'',
            hex_digit (of_char c div 16), hex_digit (of_char c mod 16)]
      else [c])"

definition QuoteJSONString :: "string \<Rightarrow> string" where
  "QuoteJSONString s = dquote # concat (map escape_char s) @ [dquote]"

text \<open>
  \<open>SerializeJSONProperty\<close> with the gap of two spaces: \<open>indent\<close> is the current
  indentation. An infinite number is written \<open>null\<close>. An empty array is \<open>[]\<close> and an
  empty object \<open>{}\<close>; otherwise the elements or members are each on a line of their own,
  indented by two more spaces and separated by commas, and the closing bracket is on a
  line of its own at the indentation of the opening one. A member is the quoted key, a
  colon, a space and the value.
\<close>

fun join :: "string \<Rightarrow> string list \<Rightarrow> string" where
  "join sep [] = []"
| "join sep [x] = x"
| "join sep (x # y # ys) = x @ sep @ join sep (y # ys)"

lemma size_snd_in_set: "kv \<in> set kvs \<Longrightarrow> size (snd kv) < Suc (size_list (size_prod (\<lambda>_. 0) size) kvs)"
  by (induction kvs) auto

function SerializeJSONProperty :: "numerics \<Rightarrow> string \<Rightarrow> json \<Rightarrow> string" where
  "SerializeJSONProperty N indent JNull = ''null''"
| "SerializeJSONProperty N indent (JBool b) = (if b then ''true'' else ''false'')"
| "SerializeJSONProperty N indent (JNumber x) = Number_toString N x"
| "SerializeJSONProperty N indent (JInfinity positive) = ''null''"
| "SerializeJSONProperty N indent (JString s) = QuoteJSONString s"
| "SerializeJSONProperty N indent (JArray xs) =
     (if xs = [] then ''[]''
      else
        (let stepback = indent; indent' = indent @ ''  '';
             separator = '','' @ [newline] @ indent'
         in ''['' @ [newline] @ indent'
            @ join separator (map (SerializeJSONProperty N indent') xs)
            @ [newline] @ stepback @ '']''))"
| "SerializeJSONProperty N indent (JObject kvs) =
     (if kvs = [] then ''{}''
      else
        (let stepback = indent; indent' = indent @ ''  '';
             separator = '','' @ [newline] @ indent'
         in ''{'' @ [newline] @ indent'
            @ join separator
                (map (\<lambda>kv. QuoteJSONString (fst kv) @ '': ''
                             @ SerializeJSONProperty N indent' (snd kv)) kvs)
            @ [newline] @ stepback @ ''}''))"
  by pat_completeness auto
termination
  by (relation "measure (\<lambda>(N, indent, v). size v)")
     (auto dest: size_in_set size_snd_in_set)

text \<open>\<open>JSON.stringify(value, null, 2)\<close>.\<close>

definition JSON_stringify_indented :: "numerics \<Rightarrow> json \<Rightarrow> string" where
  "JSON_stringify_indented N v = SerializeJSONProperty N [] v"

text \<open>
  \<open>JSON.parse\<close>, by the JSON grammar. White space is tab, line feed, carriage return and
  space. A number is the longest run of number characters, which has to be a number
  literal as a whole: an optional minus sign, an integer part without a leading zero, an
  optional fraction and an optional exponent; \<open>number_literal\<close> gives its exact value.
\<close>

definition is_json_ws :: "char \<Rightarrow> bool" where
  "is_json_ws c = (c \<in> set [CHR 0x09, CHR 0x0A, CHR 0x0D, CHR 0x20])"

definition is_digit :: "char \<Rightarrow> bool" where
  "is_digit c = (c \<in> set ''0123456789'')"

definition is_number_char :: "char \<Rightarrow> bool" where
  "is_number_char c = (is_digit c \<or> c \<in> set ''+-.eE'')"

definition digits_value :: "string \<Rightarrow> nat" where
  "digits_value ds = foldl (\<lambda>a c. 10 * a + (of_char c - 48)) 0 ds"

definition number_literal :: "string \<Rightarrow> rat option" where
  "number_literal s =
     (let negative = (s \<noteq> [] \<and> hd s = CHR ''-'');
          s1 = (if negative then tl s else s);
          int_part = takeWhile is_digit s1;
          s2 = dropWhile is_digit s1;
          has_frac = (s2 \<noteq> [] \<and> hd s2 = CHR ''.'');
          frac_part = (if has_frac then takeWhile is_digit (tl s2) else []);
          s3 = (if has_frac then dropWhile is_digit (tl s2) else s2);
          has_exp = (s3 \<noteq> [] \<and> (hd s3 = CHR ''e'' \<or> hd s3 = CHR ''E''));
          s4 = (if has_exp then tl s3 else s3);
          exp_negative = (has_exp \<and> s4 \<noteq> [] \<and> hd s4 = CHR ''-'');
          s5 = (if has_exp \<and> s4 \<noteq> [] \<and> (hd s4 = CHR ''-'' \<or> hd s4 = CHR ''+'') then tl s4 else s4);
          exp_part = (if has_exp then takeWhile is_digit s5 else []);
          s6 = (if has_exp then dropWhile is_digit s5 else s5);
          mantissa = of_nat (digits_value (int_part @ frac_part)) / 10 ^ length frac_part;
          scaled = (if exp_negative then mantissa / 10 ^ digits_value exp_part
                    else mantissa * 10 ^ digits_value exp_part)
      in if int_part \<noteq> [] \<and> (length int_part = 1 \<or> hd int_part \<noteq> CHR ''0'')
            \<and> (has_frac \<longrightarrow> frac_part \<noteq> []) \<and> (has_exp \<longrightarrow> exp_part \<noteq> []) \<and> s6 = []
         then Some (if negative then - scaled else scaled)
         else None)"

text \<open>
  \<open>parse_chars\<close> reads a string literal after its opening quotation mark, up to the
  closing one, and returns the string and the rest of the text. An escape by four
  hexadecimal digits of a code unit above 255 is outside the strings of this development
  and is refused.
\<close>

definition hex_value :: "char \<Rightarrow> nat option" where
  "hex_value c =
     (let n = (of_char c :: nat) in
      if 48 \<le> n \<and> n \<le> 57 then Some (n - 48)
      else if 97 \<le> n \<and> n \<le> 102 then Some (n - 87)
      else if 65 \<le> n \<and> n \<le> 70 then Some (n - 55)
      else None)"

definition escape_value :: "char \<Rightarrow> char option" where
  "escape_value c =
     (if c = dquote then Some dquote
      else if c = backslash then Some backslash
      else if c = CHR ''/'' then Some CHR ''/''
      else if c = CHR ''b'' then Some (CHR 0x08)
      else if c = CHR ''f'' then Some (CHR 0x0C)
      else if c = CHR ''n'' then Some (CHR 0x0A)
      else if c = CHR ''r'' then Some (CHR 0x0D)
      else if c = CHR ''t'' then Some (CHR 0x09)
      else None)"

function parse_chars :: "string \<Rightarrow> string \<Rightarrow> string + (string \<times> string)" where
  "parse_chars [] acc = Inl ''Unterminated string in JSON''"
| "parse_chars (c # cs) acc =
     (if c = dquote then Inr (acc, cs)
      else if c = backslash then
        (case cs of
           [] \<Rightarrow> Inl ''Unterminated string in JSON''
         | e # es \<Rightarrow>
             if e = CHR ''u'' then
               (case map hex_value (take 4 es) of
                  [Some a, Some b, Some c2, Some d] \<Rightarrow>
                    if a = 0 \<and> b = 0
                    then parse_chars (drop 4 es) (acc @ [char_of (16 * c2 + d)])
                    else Inl ''code unit above 255''
                | _ \<Rightarrow> Inl ''Bad Unicode escape in JSON'')
             else
               (case escape_value e of
                  Some v \<Rightarrow> parse_chars es (acc @ [v])
                | None \<Rightarrow> Inl ''Bad escaped character in JSON''))
      else if (of_char c :: nat) < 32 then Inl ''Bad control character in string literal in JSON''
      else parse_chars cs (acc @ [c]))"
  by pat_completeness auto
termination
  by (relation "measure (\<lambda>(s, acc). length s)") auto


text \<open>
  \<open>define_property\<close> is \<open>CreateDataProperty\<close> on the list of an object's properties in
  enumeration order: a key that is there keeps its place and takes the new value; a new
  key that is an array index (a canonical numeric string below \<open>2^32 - 1\<close>) goes among
  the array indices, which come first in ascending order; any other new key goes last.
\<close>

definition is_array_index :: "string \<Rightarrow> bool" where
  "is_array_index k =
     (k \<noteq> [] \<and> (\<forall>c\<in>set k. is_digit c) \<and> (length k = 1 \<or> hd k \<noteq> CHR ''0'')
      \<and> int (digits_value k) < 4294967295)"

fun insert_index :: "string \<Rightarrow> json \<Rightarrow> (string \<times> json) list \<Rightarrow> (string \<times> json) list" where
  "insert_index k v [] = [(k, v)]"
| "insert_index k v (kv # kvs) =
     (if is_array_index (fst kv) \<and> digits_value (fst kv) < digits_value k
      then kv # insert_index k v kvs
      else (k, v) # kv # kvs)"

definition define_property :: "(string \<times> json) list \<Rightarrow> string \<Rightarrow> json \<Rightarrow> (string \<times> json) list" where
  "define_property obj k v =
     (if k \<in> fst ` set obj then map (\<lambda>kv. if fst kv = k then (k, v) else kv) obj
      else if is_array_index k then insert_index k v obj
      else obj @ [(k, v)])"

text \<open>
  The parser of values, of the elements of an array after the first character of the
  first element, and of the members of an object likewise. The second argument is fuel,
  one unit for each nested call; \<open>Inl message\<close> is the \<open>SyntaxError\<close> that the host throws.
\<close>

fun parse_value :: "numerics \<Rightarrow> nat \<Rightarrow> string \<Rightarrow> string + (json \<times> string)"
  and parse_elements :: "numerics \<Rightarrow> nat \<Rightarrow> string \<Rightarrow> json list \<Rightarrow> string + (json \<times> string)"
  and parse_members ::
    "numerics \<Rightarrow> nat \<Rightarrow> string \<Rightarrow> (string \<times> json) list \<Rightarrow> string + (json \<times> string)"
where
  "parse_value N 0 s = Inl ''out of fuel''"
| "parse_value N (Suc n) s =
     (case dropWhile is_json_ws s of
        [] \<Rightarrow> Inl ''Unexpected end of JSON input''
      | c # cs \<Rightarrow>
          if c = CHR ''['' then
            (case dropWhile is_json_ws cs of
               [] \<Rightarrow> Inl ''Unexpected end of JSON input''
             | c' # cs' \<Rightarrow>
                 if c' = CHR '']'' then Inr (JArray [], cs')
                 else parse_elements N n (c' # cs') [])
          else if c = CHR ''{'' then
            (case dropWhile is_json_ws cs of
               [] \<Rightarrow> Inl ''Unexpected end of JSON input''
             | c' # cs' \<Rightarrow>
                 if c' = CHR ''}'' then Inr (JObject [], cs')
                 else parse_members N n (c' # cs') [])
          else if c = dquote then
            (case parse_chars cs [] of
               Inl e \<Rightarrow> Inl e
             | Inr (str, rest) \<Rightarrow> Inr (JString str, rest))
          else if prefix ''null'' (c # cs) then Inr (JNull, drop 4 (c # cs))
          else if prefix ''true'' (c # cs) then Inr (JBool True, drop 4 (c # cs))
          else if prefix ''false'' (c # cs) then Inr (JBool False, drop 5 (c # cs))
          else
            (case number_literal (takeWhile is_number_char (c # cs)) of
               None \<Rightarrow> Inl ''Unexpected token in JSON''
             | Some mv \<Rightarrow>
                 (case Number_round N mv of
                    Some x \<Rightarrow> Inr (JNumber x, dropWhile is_number_char (c # cs))
                  | None \<Rightarrow> Inr (JInfinity (0 < mv), dropWhile is_number_char (c # cs)))))"
| "parse_elements N 0 s acc = Inl ''out of fuel''"
| "parse_elements N (Suc n) s acc =
     (case parse_value N n s of
        Inl e \<Rightarrow> Inl e
      | Inr (v, rest) \<Rightarrow>
          (case dropWhile is_json_ws rest of
             [] \<Rightarrow> Inl ''Unexpected end of JSON input''
           | c # cs \<Rightarrow>
               if c = CHR '','' then parse_elements N n cs (acc @ [v])
               else if c = CHR '']'' then Inr (JArray (acc @ [v]), cs)
               else Inl ''Unexpected token in JSON''))"
| "parse_members N 0 s acc = Inl ''out of fuel''"
| "parse_members N (Suc n) s acc =
     (case dropWhile is_json_ws s of
        [] \<Rightarrow> Inl ''Unexpected end of JSON input''
      | c # cs \<Rightarrow>
          if c = dquote then
            (case parse_chars cs [] of
               Inl e \<Rightarrow> Inl e
             | Inr (key, rest) \<Rightarrow>
                 (case dropWhile is_json_ws rest of
                    [] \<Rightarrow> Inl ''Unexpected end of JSON input''
                  | c1 # cs1 \<Rightarrow>
                      if c1 = CHR '':'' then
                        (case parse_value N n cs1 of
                           Inl e \<Rightarrow> Inl e
                         | Inr (v, rest2) \<Rightarrow>
                             (case dropWhile is_json_ws rest2 of
                                [] \<Rightarrow> Inl ''Unexpected end of JSON input''
                              | c2 # cs2 \<Rightarrow>
                                  if c2 = CHR '','' then parse_members N n cs2 (define_property acc key v)
                                  else if c2 = CHR ''}''
                                  then Inr (JObject (define_property acc key v), cs2)
                                  else Inl ''Unexpected token in JSON''))
                      else Inl ''Unexpected token in JSON''))
          else Inl ''Unexpected token in JSON'')"

text \<open>
  \<open>JSON.parse(text)\<close>: one value, with nothing but white space after it. The fuel is the
  length of the text and one more, which is enough for every text that the serializer
  writes (\<open>fuel_for_le_length\<close> below).
\<close>

definition JSON_parse_text :: "numerics \<Rightarrow> string \<Rightarrow> string + json" where
  "JSON_parse_text N s =
     (case parse_value N (Suc (length s)) s of
        Inl e \<Rightarrow> Inl e
      | Inr (v, rest) \<Rightarrow>
          if dropWhile is_json_ws rest = [] then Inr v
          else Inl ''Unexpected non-whitespace character after JSON'')"

section \<open>JSON formatter\<close>

text \<open>
  A node as the value that the serializer sees: an object with the properties \<open>type\<close>,
  \<open>component\<close> and \<open>props\<close> in the order in which \<open>parseComponent\<close> creates them, and
  \<open>children\<close> after them where the node has children; a text child is a string.
\<close>

fun component_value :: "ParsedComponent \<Rightarrow> json"
  and child_value :: "Child \<Rightarrow> json" where
  "component_value (ParsedComponent t c p ch) =
     JObject ([(''type'', JString t), (''component'', c), (''props'', JObject p)]
              @ (case ch of None \<Rightarrow> [] | Some cs \<Rightarrow> [(''children'', JArray (map child_value cs))]))"
| "child_value (ChildComponent n) = component_value n"
| "child_value (ChildText s) = JString s"

definition formatAsReadableJson :: "numerics \<Rightarrow> ParsedComponent list \<Rightarrow> string" where
  \<comment> \<open>\<open>return JSON.stringify(components, null, 2)\<close>\<close>
  "formatAsReadableJson N components' =
     JSON_stringify_indented N (JArray (map component_value components'))"

section \<open>Values of the host\<close>

text \<open>
  The keys of an object of the host are distinct, and they are enumerated with the array
  indices first, in ascending order, and the other keys after them. \<open>host_value\<close> holds of
  a value all of whose objects have their keys so, and all of whose finite numbers are
  doubles: the host prints such a number to a literal that is rounded to the number
  again, which is how \<open>Number::toString\<close> is specified. \<open>finite_value\<close> holds of a value
  with no infinite number in it, and \<open>nullify\<close> puts \<open>null\<close> for each infinite number.
  \<open>fuel_for\<close> is the fuel that parsing the serialization of a value takes.
\<close>

definition key_before :: "string \<Rightarrow> string \<Rightarrow> bool" where
  "key_before a b = (is_array_index b \<longrightarrow> is_array_index a \<and> digits_value a < digits_value b)"

definition host_keys :: "string list \<Rightarrow> bool" where
  "host_keys ks = (distinct ks \<and> sorted_wrt key_before ks)"

definition number_round_trips :: "numerics \<Rightarrow> rat \<Rightarrow> bool" where
  "number_round_trips N x =
     (case number_literal (Number_toString N x) of
        None \<Rightarrow> False
      | Some mv \<Rightarrow> Number_round N mv = Some x)"

function host_value :: "numerics \<Rightarrow> json \<Rightarrow> bool" where
  "host_value N JNull = True"
| "host_value N (JBool b) = True"
| "host_value N (JNumber x) = number_round_trips N x"
| "host_value N (JInfinity positive) = True"
| "host_value N (JString s) = True"
| "host_value N (JArray xs) = (\<forall>x\<in>set xs. host_value N x)"
| "host_value N (JObject kvs) =
     (host_keys (map fst kvs) \<and> (\<forall>kv\<in>set kvs. host_value N (snd kv)))"
  by pat_completeness auto
termination
  by (relation "measure (\<lambda>(N, v). size v)") (auto dest: size_in_set size_snd_in_set)

function finite_value :: "json \<Rightarrow> bool" where
  "finite_value JNull = True"
| "finite_value (JBool b) = True"
| "finite_value (JNumber x) = True"
| "finite_value (JInfinity positive) = False"
| "finite_value (JString s) = True"
| "finite_value (JArray xs) = (\<forall>x\<in>set xs. finite_value x)"
| "finite_value (JObject kvs) = (\<forall>kv\<in>set kvs. finite_value (snd kv))"
  by pat_completeness auto
termination
  by (relation "measure size") (auto dest: size_in_set size_snd_in_set)

function fuel_for :: "json \<Rightarrow> nat" where
  "fuel_for JNull = 1"
| "fuel_for (JBool b) = 1"
| "fuel_for (JNumber x) = 1"
| "fuel_for (JInfinity positive) = 1"
| "fuel_for (JString s) = 1"
| "fuel_for (JArray xs) = Suc (sum_list (map (\<lambda>x. Suc (fuel_for x)) xs))"
| "fuel_for (JObject kvs) = Suc (sum_list (map (\<lambda>kv. Suc (fuel_for (snd kv))) kvs))"
  by pat_completeness auto
termination
  by (relation "measure size") (auto dest: size_in_set size_snd_in_set)

function nullify :: "json \<Rightarrow> json" where
  "nullify JNull = JNull"
| "nullify (JBool b) = JBool b"
| "nullify (JNumber x) = JNumber x"
| "nullify (JInfinity positive) = JNull"
| "nullify (JString s) = JString s"
| "nullify (JArray xs) = JArray (map nullify xs)"
| "nullify (JObject kvs) = JObject (map (\<lambda>kv. (fst kv, nullify (snd kv))) kvs)"
  by pat_completeness auto
termination
  by (relation "measure size") (auto dest: size_in_set size_snd_in_set)

section \<open>A sample of the host's numerics and a sample node sequence\<close>

text \<open>
  A sample of the host's numerics, exact on the integers: an integer is printed in decimal
  digits, and every value of a literal is taken as it is.
\<close>

definition show_int_rat :: "rat \<Rightarrow> string" where
  "show_int_rat x = (if x < 0 then ''-'' @ show_nat (nat (- \<lfloor>x\<rfloor>)) else show_nat (nat \<lfloor>x\<rfloor>))"

definition sample_numerics :: numerics where
  "sample_numerics = \<lparr>Number_toString = show_int_rat, Number_round = Some\<rparr>"

definition sample_nodes :: "ParsedComponent list" where
  "sample_nodes =
     [ParsedComponent ''component'' (JString ''div'')
        [(''1'', JNumber 42),
         (''className'', JString (''a'' @ [dquote, newline] @ ''b'')),
         (''style'', JObject [(''hidden'', JBool False),
                              (''data'', JArray [JNull, JNumber (- 3), JArray [], JObject []])])]
        (Some [ChildText ''hi'',
               ChildComponent (ParsedComponent ''component'' (JString ''span'') [] None)]),
      ParsedComponent ''text'' (JString ''bye'') [] None]"

section \<open>Facts about the string functions\<close>

lemma includes_str_iff: "includes_str s t \<longleftrightarrow> (\<exists>u v. s = u @ t @ v)"
proof (induction s)
  case Nil
  then show ?case by auto
next
  case (Cons x xs)
  show ?case
  proof
    assume "includes_str (x # xs) t"
    then consider "prefix t (x # xs)" | "includes_str xs t" by auto
    then show "\<exists>u v. x # xs = u @ t @ v"
    proof cases
      case 1
      then obtain v where "x # xs = t @ v" by (auto simp: prefix_def)
      then have "x # xs = [] @ t @ v" by simp
      then show ?thesis by blast
    next
      case 2
      with Cons.IH obtain u v where "xs = u @ t @ v" by blast
      then have "x # xs = (x # u) @ t @ v" by simp
      then show ?thesis by blast
    qed
  next
    assume "\<exists>u v. x # xs = u @ t @ v"
    then obtain u v where e: "x # xs = u @ t @ v" by blast
    show "includes_str (x # xs) t"
    proof (cases u)
      case Nil
      with e have "prefix t (x # xs)" by (simp add: prefix_def)
      then show ?thesis by simp
    next
      case (Cons y u')
      with e have "xs = u' @ t @ v" by simp
      with Cons.IH have "includes_str xs t" by blast
      then show ?thesis by simp
    qed
  qed
qed

lemma includes_str_single: "includes_str s [c] \<longleftrightarrow> c \<in> set s"
  by (induction s) auto

lemma test_key_then_iff:
  assumes "lit \<noteq> []" "\<not> cls (hd lit)"
  shows "test_key_then cls lit s \<longleftrightarrow> matches_key_regex cls lit s"
proof
  assume t: "test_key_then cls lit s"
  then obtain rest where r: "dropWhile cls s = lit @ rest"
    by (auto simp: test_key_then_def prefix_def)
  have "s = takeWhile cls s @ dropWhile cls s" by simp
  with r have "s = takeWhile cls s @ lit @ rest" by simp
  moreover from t have "takeWhile cls s \<noteq> []" by (simp add: test_key_then_def)
  moreover have "\<forall>c\<in>set (takeWhile cls s). cls c" by (auto dest: set_takeWhileD)
  ultimately show "matches_key_regex cls lit s"
    unfolding matches_key_regex_def by blast
next
  assume "matches_key_regex cls lit s"
  then obtain key rest where s: "s = key @ lit @ rest" and k: "key \<noteq> []" and c: "\<forall>c\<in>set key. cls c"
    unfolding matches_key_regex_def by blast
  from assms obtain l ls where l: "lit = l # ls" "\<not> cls l" by (cases lit) auto
  from c l have "takeWhile cls (key @ lit @ rest) = key"
    by (simp add: takeWhile_append2)
  moreover from c l have "dropWhile cls (key @ lit @ rest) = lit @ rest"
    by (simp add: dropWhile_append2)
  ultimately show "test_key_then cls lit s"
    using s k by (simp add: test_key_then_def)
qed

lemma test_key_then_colon:
  assumes "test_key_then cls (CHR '':'' # lit) s"
  shows "CHR '':'' \<in> set s"
proof -
  from assms obtain rest where "dropWhile cls s = CHR '':'' # lit @ rest"
    by (auto simp: test_key_then_def prefix_def)
  then have "CHR '':'' \<in> set (dropWhile cls s)" by simp
  then show ?thesis by (rule set_dropWhileD)
qed

section \<open>Facts about the Tree Builder\<close>


section \<open>Facts about the Bracket Matcher and the Call Extractor\<close>

lemma fmb_literal_body:
  assumes "literal_body q body" and "q \<noteq> backslash"
  shows "findMatchingBracket_loop (pre @ body @ q # rest) (length pre) depth (Some q)
     = findMatchingBracket_loop (pre @ body @ q # rest) (length pre + length body + 1) depth None"
  using assms
proof (induction q body arbitrary: pre rule: literal_body.induct)
  case (1 q)
  then show ?case by (simp add: fmb_unquote)
next
  case (2 q c cs)
  let ?content = "pre @ (c # cs) @ q # rest"
  show ?case
  proof (cases "c = backslash")
    case True
    with "2.prems" obtain d ds where cs: "cs = d # ds" and b: "literal_body q ds"
      by (auto split: list.splits)
    from True have "findMatchingBracket_loop ?content (length pre) depth (Some q)
        = findMatchingBracket_loop ?content (length pre + 2) depth (Some q)"
      by (simp add: fmb_escape)
    also have "\<dots> = findMatchingBracket_loop ?content (length pre + 2 + length ds + 1) depth None"
      using "2.IH"(1) [OF True cs b "2.prems"(2), of "pre @ [c, d]"] cs by simp
    finally show ?thesis using cs by simp
  next
    case False
    with "2.prems" have q: "c \<noteq> q" and b: "literal_body q cs" by auto
    from False q have "findMatchingBracket_loop ?content (length pre) depth (Some q)
        = findMatchingBracket_loop ?content (length pre + 1) depth (Some q)"
      by (simp add: fmb_inside)
    also have "\<dots> = findMatchingBracket_loop ?content (length pre + 1 + length cs + 1) depth None"
      using "2.IH"(2) [OF False b "2.prems"(2), of "pre @ [c]"] by simp
    finally show ?thesis by simp
  qed
qed

lemma fmb_literal:
  assumes "is_quote q" "literal_body q body"
  shows "findMatchingBracket_loop (pre @ q # body @ q # rest) (length pre) depth None
     = findMatchingBracket_loop (pre @ q # body @ q # rest) (length pre + length body + 2) depth None"
proof -
  let ?content = "pre @ q # body @ q # rest"
  from assms(1) have nb: "q \<noteq> backslash"
    by (auto simp: is_quote_def dquote_def squote_def backtick_def backslash_def)
  have c: "?content = (pre @ [q]) @ body @ q # rest" by simp
  from assms(1) have "findMatchingBracket_loop ?content (length pre) depth None
      = findMatchingBracket_loop ?content (length pre + 1) depth (Some q)"
    by (simp add: fmb_quote)
  also have "\<dots> = findMatchingBracket_loop ?content (length pre + 1 + length body + 1) depth None"
    using fmb_literal_body [OF assms(2) nb, of "pre @ [q]" rest depth] by simp
  finally show ?thesis by simp
qed


lemma closes_at_end_nonempty: "closes_at_end depth ps \<Longrightarrow> render ps \<noteq> []"
  by (induction depth ps rule: closes_at_end.induct) auto

lemma fmb_closes_at_end:
  assumes "\<forall>p\<in>set ps. well_formed p" and "closes_at_end depth ps"
  shows "findMatchingBracket_loop (pre @ render ps @ post) (length pre) depth None
     = Some (length pre + length (render ps) - 1)"
  using assms
proof (induction ps arbitrary: pre depth)
  case Nil
  then show ?case by simp
next
  case (Cons p ps)
  show ?case
  proof (cases p)
    case (Literal q body)
    let ?content = "pre @ q # body @ q # render ps @ post"
    from Cons.prems Literal have q: "is_quote q" "literal_body q body"
      and wf: "\<forall>p\<in>set ps. well_formed p" and cl: "closes_at_end depth ps"
      by auto
    from closes_at_end_nonempty [OF cl] have ne: "0 < length (render ps)" by simp
    have "findMatchingBracket_loop ?content (length pre) depth None
        = findMatchingBracket_loop ?content (length pre + length body + 2) depth None"
      by (rule fmb_literal [OF q])
    also have "\<dots> = Some (length (pre @ q # body @ [q]) + length (render ps) - 1)"
      using Cons.IH [OF wf cl, of "pre @ q # body @ [q]"] by simp
    finally show ?thesis using Literal ne by simp
  next
    case (Code c)
    let ?content = "pre @ c # render ps @ post"
    from Cons.prems Code have nq: "\<not> is_quote c" and wf: "\<forall>p\<in>set ps. well_formed p"
      by auto
    have IH: "findMatchingBracket_loop ?content (length pre + 1) d None
        = Some (length pre + 1 + length (render ps) - 1)" if "closes_at_end d ps" for d
      using Cons.IH [OF wf that, of "pre @ [c]"] by simp
    consider (opn) "c = CHR ''[''" | (found) "c = CHR '']''" "depth - 1 = 0"
      | (cls) "c = CHR '']''" "depth - 1 \<noteq> 0" | (other) "c \<noteq> CHR ''[''" "c \<noteq> CHR '']''"
      by blast
    then show ?thesis
    proof cases
      case opn
      with Cons.prems(2) Code have cl: "closes_at_end (depth + 1) ps" by simp
      from opn have "findMatchingBracket_loop ?content (length pre) depth None
          = findMatchingBracket_loop ?content (length pre + 1) (depth + 1) None"
        by (simp add: fmb_open)
      with IH [OF cl] closes_at_end_nonempty [OF cl] Code show ?thesis by simp
    next
      case found
      with Cons.prems(2) Code have "ps = []" by simp
      moreover from found have "findMatchingBracket_loop ?content (length pre) depth None
          = Some (length pre)"
        by (simp add: fmb_close_found)
      ultimately show ?thesis using Code by simp
    next
      case cls
      with Cons.prems(2) Code have cl: "closes_at_end (depth - 1) ps" by simp
      from cls have "findMatchingBracket_loop ?content (length pre) depth None
          = findMatchingBracket_loop ?content (length pre + 1) (depth - 1) None"
        by (simp add: fmb_close)
      with IH [OF cl] closes_at_end_nonempty [OF cl] Code show ?thesis by simp
    next
      case other
      with Cons.prems(2) Code have cl: "closes_at_end depth ps" by simp
      from other nq have "findMatchingBracket_loop ?content (length pre) depth None
          = findMatchingBracket_loop ?content (length pre + 1) depth None"
        by (simp add: fmb_code)
      with IH [OF cl] closes_at_end_nonempty [OF cl] Code show ?thesis by simp
    qed
  qed
qed

lemma fmb_never_closes:
  assumes "\<forall>p\<in>set ps. well_formed p" and "never_closes depth ps"
  shows "findMatchingBracket_loop (pre @ render ps) (length pre) depth None = None"
  using assms
proof (induction ps arbitrary: pre depth)
  case Nil
  then show ?case by (simp add: fmb_end)
next
  case (Cons p ps)
  show ?case
  proof (cases p)
    case (Literal q body)
    let ?content = "pre @ q # body @ q # render ps"
    from Cons.prems Literal have q: "is_quote q" "literal_body q body"
      and wf: "\<forall>p\<in>set ps. well_formed p" and nc: "never_closes depth ps"
      by auto
    have "findMatchingBracket_loop ?content (length pre) depth None
        = findMatchingBracket_loop ?content (length pre + length body + 2) depth None"
      by (rule fmb_literal [OF q])
    also have "\<dots> = None"
      using Cons.IH [OF wf nc, of "pre @ q # body @ [q]"] by simp
    finally show ?thesis using Literal by simp
  next
    case (Code c)
    let ?content = "pre @ c # render ps"
    from Cons.prems Code have nq: "\<not> is_quote c" and wf: "\<forall>p\<in>set ps. well_formed p"
      by auto
    have IH: "findMatchingBracket_loop ?content (length pre + 1) d None = None"
      if "never_closes d ps" for d
      using Cons.IH [OF wf that, of "pre @ [c]"] by simp
    consider (opn) "c = CHR ''[''" | (cls) "c = CHR '']''" | (other) "c \<noteq> CHR ''[''" "c \<noteq> CHR '']''"
      by blast
    then show ?thesis
    proof cases
      case opn
      with Cons.prems(2) Code have nc: "never_closes (depth + 1) ps" by simp
      from opn have "findMatchingBracket_loop ?content (length pre) depth None
          = findMatchingBracket_loop ?content (length pre + 1) (depth + 1) None"
        by (simp add: fmb_open)
      with IH [OF nc] Code show ?thesis by simp
    next
      case cls
      with Cons.prems(2) Code have d: "depth - 1 \<noteq> 0" and nc: "never_closes (depth - 1) ps"
        by simp_all
      from cls d have "findMatchingBracket_loop ?content (length pre) depth None
          = findMatchingBracket_loop ?content (length pre + 1) (depth - 1) None"
        by (simp add: fmb_close)
      with IH [OF nc] Code show ?thesis by simp
    next
      case other
      with Cons.prems(2) Code have nc: "never_closes depth ps" by simp
      from other nq have "findMatchingBracket_loop ?content (length pre) depth None
          = findMatchingBracket_loop ?content (length pre + 1) depth None"
        by (simp add: fmb_code)
      with IH [OF nc] Code show ?thesis by simp
    qed
  qed
qed


lemma fmb_open_body:
  assumes "open_body q body" and "q \<noteq> backslash"
  shows "findMatchingBracket_loop (pre @ body) (length pre) depth (Some q) = None"
  using assms
proof (induction q body arbitrary: pre rule: open_body.induct)
  case (1 q)
  then show ?case by (simp add: fmb_end)
next
  case (2 q c cs)
  let ?content = "pre @ c # cs"
  show ?case
  proof (cases "c = backslash")
    case True
    have esc: "findMatchingBracket_loop ?content (length pre) depth (Some q)
        = findMatchingBracket_loop ?content (length pre + 2) depth (Some q)"
      using True by (simp add: fmb_escape)
    show ?thesis
    proof (cases cs)
      case Nil
      then have "findMatchingBracket_loop ?content (length pre + 2) depth (Some q) = None"
        by (simp add: fmb_end)
      with esc show ?thesis by simp
    next
      case (Cons d ds)
      with "2.prems" True have b: "open_body q ds" by simp
      from "2.IH"(1) [OF True Cons b "2.prems"(2), of "pre @ [c, d]"] Cons
      have "findMatchingBracket_loop ?content (length pre + 2) depth (Some q) = None"
        by simp
      with esc show ?thesis by simp
    qed
  next
    case False
    with "2.prems" have q: "c \<noteq> q" and b: "open_body q cs" by auto
    from False q have "findMatchingBracket_loop ?content (length pre) depth (Some q)
        = findMatchingBracket_loop ?content (length pre + 1) depth (Some q)"
      by (simp add: fmb_inside)
    also have "\<dots> = None"
      using "2.IH"(2) [OF False b "2.prems"(2), of "pre @ [c]"] by simp
    finally show ?thesis .
  qed
qed

lemma fmb_pass:
  assumes "\<forall>p\<in>set ps. well_formed p" and "never_closes depth ps"
  shows "findMatchingBracket_loop (pre @ render ps @ post) (length pre) depth None
     = findMatchingBracket_loop (pre @ render ps @ post) (length pre + length (render ps))
         (depth_after depth ps) None"
  using assms
proof (induction ps arbitrary: pre depth)
  case Nil
  then show ?case by simp
next
  case (Cons p ps)
  show ?case
  proof (cases p)
    case (Literal q body)
    let ?content = "pre @ q # body @ q # render ps @ post"
    from Cons.prems Literal have q: "is_quote q" "literal_body q body"
      and wf: "\<forall>p\<in>set ps. well_formed p" and nc: "never_closes depth ps"
      by auto
    have "findMatchingBracket_loop ?content (length pre) depth None
        = findMatchingBracket_loop ?content (length pre + length body + 2) depth None"
      by (rule fmb_literal [OF q])
    also have "\<dots> = findMatchingBracket_loop ?content
        (length (pre @ q # body @ [q]) + length (render ps)) (depth_after depth ps) None"
      using Cons.IH [OF wf nc, of "pre @ q # body @ [q]"] by simp
    finally show ?thesis using Literal by (simp add: add.assoc)
  next
    case (Code c)
    let ?content = "pre @ c # render ps @ post"
    from Cons.prems Code have nq: "\<not> is_quote c" and wf: "\<forall>p\<in>set ps. well_formed p"
      by auto
    have IH: "findMatchingBracket_loop ?content (length pre + 1) d None
        = findMatchingBracket_loop ?content (length pre + 1 + length (render ps))
            (depth_after d ps) None" if "never_closes d ps" for d
      using Cons.IH [OF wf that, of "pre @ [c]"] by simp
    consider (opn) "c = CHR ''[''" | (cls) "c = CHR '']''" | (other) "c \<noteq> CHR ''[''" "c \<noteq> CHR '']''"
      by blast
    then show ?thesis
    proof cases
      case opn
      with Cons.prems(2) Code have nc: "never_closes (depth + 1) ps" by simp
      from opn have "findMatchingBracket_loop ?content (length pre) depth None
          = findMatchingBracket_loop ?content (length pre + 1) (depth + 1) None"
        by (simp add: fmb_open)
      with IH [OF nc] Code opn show ?thesis by simp
    next
      case cls
      with Cons.prems(2) Code have d: "depth - 1 \<noteq> 0" and nc: "never_closes (depth - 1) ps"
        by simp_all
      from cls d have "findMatchingBracket_loop ?content (length pre) depth None
          = findMatchingBracket_loop ?content (length pre + 1) (depth - 1) None"
        by (simp add: fmb_close)
      with IH [OF nc] Code cls show ?thesis by simp
    next
      case other
      with Cons.prems(2) Code have nc: "never_closes depth ps" by simp
      from other nq have "findMatchingBracket_loop ?content (length pre) depth None
          = findMatchingBracket_loop ?content (length pre + 1) depth None"
        by (simp add: fmb_code)
      with IH [OF nc] Code other show ?thesis by simp
    qed
  qed
qed

lemma fmb_never_closes_open:
  assumes "\<forall>p\<in>set ps. well_formed p" and "never_closes depth ps"
    and "is_quote q" and "open_body q body"
  shows "findMatchingBracket_loop (pre @ render ps @ q # body) (length pre) depth None = None"
proof -
  let ?content = "pre @ render ps @ q # body"
  from assms(3) have nb: "q \<noteq> backslash"
    by (auto simp: is_quote_def dquote_def squote_def backtick_def backslash_def)
  have "findMatchingBracket_loop ?content (length pre) depth None
      = findMatchingBracket_loop ?content (length pre + length (render ps)) (depth_after depth ps) None"
    by (rule fmb_pass [OF assms(1,2)])
  also have "\<dots> = findMatchingBracket_loop ?content (length pre + length (render ps) + 1)
      (depth_after depth ps) (Some q)"
    using assms(3) fmb_quote [of "length (pre @ render ps)" "(pre @ render ps) @ q # body" "depth_after depth ps"]
    by simp
  also have "\<dots> = None"
    using fmb_open_body [OF assms(4) nb, of "pre @ render ps @ [q]" "depth_after depth ps"]
    by simp
  finally show ?thesis .
qed


lemma literal_or_open:
  assumes "q \<noteq> backslash"
  shows "open_body q cs \<or> (\<exists>body rest. cs = body @ q # rest \<and> literal_body q body)"
  using assms
proof (induction q cs rule: open_body.induct)
  case (1 q)
  then show ?case by simp
next
  case (2 q c cs)
  show ?case
  proof (cases "c = backslash")
    case True
    show ?thesis
    proof (cases cs)
      case Nil
      with True show ?thesis by simp
    next
      case (Cons d ds)
      from "2.IH"(1) [OF True Cons "2.prems"] consider "open_body q ds"
        | body rest where "ds = body @ q # rest" "literal_body q body" by blast
      then show ?thesis
      proof cases
        case 1
        with True Cons show ?thesis by simp
      next
        case 2
        with True Cons have "c # cs = (c # d # body) @ q # rest" "literal_body q (c # d # body)"
          by simp_all
        then show ?thesis by blast
      qed
    qed
  next
    case False
    show ?thesis
    proof (cases "c = q")
      case True
      have "c # cs = [] @ q # cs" "literal_body q []" using True by simp_all
      then show ?thesis by blast
    next
      case nq: False
      from "2.IH"(2) [OF False "2.prems"] consider "open_body q cs"
        | body rest where "cs = body @ q # rest" "literal_body q body" by blast
      then show ?thesis
      proof cases
        case 1
        with False nq show ?thesis by simp
      next
        case 2
        with False nq have "c # cs = (c # body) @ q # rest" "literal_body q (c # body)"
          by simp_all
        then show ?thesis by blast
      qed
    qed
  qed
qed

lemma text_is_pieces:
  "\<exists>ps tail. s = render ps @ tail \<and> (\<forall>p\<in>set ps. well_formed p)
     \<and> (tail = [] \<or> (\<exists>q body. tail = q # body \<and> is_quote q \<and> open_body q body))"
proof (induction "length s" arbitrary: s rule: less_induct)
  case less
  show ?case
  proof (cases s)
    case Nil
    then have "s = render [] @ []" by simp
    then show ?thesis by fastforce
  next
    case (Cons c cs)
    show ?thesis
    proof (cases "is_quote c")
      case False
      from less [of cs] Cons obtain ps tail where r: "cs = render ps @ tail"
        "\<forall>p\<in>set ps. well_formed p"
        "tail = [] \<or> (\<exists>q body. tail = q # body \<and> is_quote q \<and> open_body q body)"
        by auto
      from r(1) Cons have "s = render (Code c # ps) @ tail" by simp
      moreover from r(2) False have "\<forall>p\<in>set (Code c # ps). well_formed p" by simp
      ultimately show ?thesis using r(3) by blast
    next
      case True
      then have nb: "c \<noteq> backslash"
        by (auto simp: is_quote_def dquote_def squote_def backtick_def backslash_def)
      from literal_or_open [OF nb, of cs] consider "open_body c cs"
        | body rest where "cs = body @ c # rest" "literal_body c body" by blast
      then show ?thesis
      proof cases
        case 1
        with Cons True have "s = render [] @ c # cs" "is_quote c \<and> open_body c cs" by simp_all
        then show ?thesis by fastforce
      next
        case 2
        with Cons have "length rest < length s" by simp
        from less [OF this] obtain ps tail where r: "rest = render ps @ tail"
          "\<forall>p\<in>set ps. well_formed p"
          "tail = [] \<or> (\<exists>q body. tail = q # body \<and> is_quote q \<and> open_body q body)"
          by auto
        from r(1) 2 Cons have "s = render (Literal c body # ps) @ tail" by simp
        moreover from r(2) 2 True have "\<forall>p\<in>set (Literal c body # ps). well_formed p" by simp
        ultimately show ?thesis using r(3) by blast
      qed
    qed
  qed
qed


lemma closes_or_never:
  "never_closes depth ps \<or> (\<exists>ps1 ps2. ps = ps1 @ ps2 \<and> closes_at_end depth ps1)"
proof (induction ps arbitrary: depth)
  case Nil
  then show ?case by simp
next
  case (Cons p ps)
  have lift: "\<exists>ps1 ps2. p # ps = ps1 @ ps2 \<and> closes_at_end depth ps1"
    if "\<exists>ps1 ps2. ps = ps1 @ ps2 \<and> closes_at_end d ps1"
      "\<And>ps1. closes_at_end d ps1 \<Longrightarrow> closes_at_end depth (p # ps1)" for d
  proof -
    from that(1) obtain ps1 ps2 where "ps = ps1 @ ps2" "closes_at_end d ps1" by blast
    with that(2) have "p # ps = (p # ps1) @ ps2" "closes_at_end depth (p # ps1)" by simp_all
    then show ?thesis by blast
  qed
  show ?case
  proof (cases p)
    case (Literal q body)
    from Cons.IH [of depth] show ?thesis
    proof
      assume "never_closes depth ps"
      with Literal show ?thesis by simp
    next
      assume "\<exists>ps1 ps2. ps = ps1 @ ps2 \<and> closes_at_end depth ps1"
      then have "\<exists>ps1 ps2. p # ps = ps1 @ ps2 \<and> closes_at_end depth ps1"
        by (rule lift) (simp add: Literal)
      then show ?thesis ..
    qed
  next
    case (Code c)
    consider (opn) "c = CHR ''[''" | (found) "c = CHR '']''" "depth - 1 = 0"
      | (cls) "c = CHR '']''" "depth - 1 \<noteq> 0" | (other) "c \<noteq> CHR ''[''" "c \<noteq> CHR '']''"
      by blast
    then show ?thesis
    proof cases
      case opn
      from Cons.IH [of "depth + 1"] show ?thesis
      proof
        assume "never_closes (depth + 1) ps"
        with Code opn show ?thesis by simp
      next
        assume "\<exists>ps1 ps2. ps = ps1 @ ps2 \<and> closes_at_end (depth + 1) ps1"
        then have "\<exists>ps1 ps2. p # ps = ps1 @ ps2 \<and> closes_at_end depth ps1"
          by (rule lift) (simp add: Code opn)
        then show ?thesis ..
      qed
    next
      case found
      with Code have "p # ps = [p] @ ps" "closes_at_end depth [p]" by simp_all
      then show ?thesis by blast
    next
      case cls
      from Cons.IH [of "depth - 1"] show ?thesis
      proof
        assume "never_closes (depth - 1) ps"
        with Code cls show ?thesis by simp
      next
        assume "\<exists>ps1 ps2. ps = ps1 @ ps2 \<and> closes_at_end (depth - 1) ps1"
        then have "\<exists>ps1 ps2. p # ps = ps1 @ ps2 \<and> closes_at_end depth ps1"
          by (rule lift) (use cls in \<open>simp add: Code\<close>)
        then show ?thesis ..
      qed
    next
      case other
      from Cons.IH [of depth] show ?thesis
      proof
        assume "never_closes depth ps"
        with Code other show ?thesis by simp
      next
        assume "\<exists>ps1 ps2. ps = ps1 @ ps2 \<and> closes_at_end depth ps1"
        then have "\<exists>ps1 ps2. p # ps = ps1 @ ps2 \<and> closes_at_end depth ps1"
          by (rule lift) (simp add: Code other)
        then show ?thesis ..
      qed
    qed
  qed
qed


lemma skip_ws_stop:
  "\<not> (cursor < length content \<and> is_space (content ! cursor)) \<Longrightarrow> skip_ws content cursor = cursor"
  by (subst skip_ws.simps) auto

lemma trim_id:
  assumes "s \<noteq> []" "\<not> is_space (hd s)" "\<not> is_space (last s)"
  shows "trim s = s"
proof -
  from assms(1,2) have 1: "dropWhile is_space s = s" by (cases s) simp_all
  from assms(1,3) have 2: "dropWhile is_space (rev s) = rev s"
    by (cases "rev s") (simp_all add: last_rev [symmetric] hd_rev)
  show ?thesis by (simp add: trim_def 1 2)
qed

lemma indexOf_prefix: "t \<noteq> [] \<Longrightarrow> indexOf (t @ xs) t 0 = Some 0"
  by (cases t) (simp_all add: indexOf_def)

lemma extract_end:
  "\<not> searchIndex < length content \<Longrightarrow> extractPushCalls_loop content searchIndex calls = calls"
  by (subst extractPushCalls_loop.simps) simp

lemma extract_unfold:
  "extractPushCalls_loop content searchIndex calls =
     (if searchIndex < length content then
        (case indexOf content pushToken searchIndex of
           None \<Rightarrow> calls
         | Some start \<Rightarrow>
             extractPushCalls_loop content (fst (after_hit content start))
               (calls @ snd (after_hit content start)))
      else calls)"
  by (subst extractPushCalls_loop.simps)
     (simp add: after_hit_def Let_def split: option.splits)

lemma after_hit_gt: "start < fst (after_hit content start)"
proof -
  have 1: "start < skip_ws content (start + length pushToken) + 1"
    using skip_ws_ge [of "start + length pushToken" content] by simp
  have 2: "start < skip_ws content (arrayEnd + 1)"
    if "findMatchingBracket content (skip_ws content (start + length pushToken)) = Some arrayEnd"
    for arrayEnd
    using findMatchingBracket_ge [OF that] skip_ws_ge [of "arrayEnd + 1" content]
      skip_ws_ge [of "start + length pushToken" content] by simp
  show ?thesis
    using 1 2 by (auto simp: after_hit_def Let_def split: option.splits dest: less_SucI)
qed

lemma extract_acc:
  "extractPushCalls_loop content i calls = calls @ extractPushCalls_loop content i []"
proof (induction "length content - i" arbitrary: i calls rule: less_induct)
  case less
  show ?case
  proof (cases "i < length content")
    case False
    then show ?thesis by (simp add: extract_unfold [of content i])
  next
    case lt: True
    show ?thesis
    proof (cases "indexOf content pushToken i")
      case None
      with lt show ?thesis by (simp add: extract_unfold [of content i])
    next
      case (Some start)
      let ?n = "fst (after_hit content start)" and ?new = "snd (after_hit content start)"
      from indexOf_ge [OF Some] after_hit_gt [of start content] have "i < ?n" by simp
      with lt have d: "length content - ?n < length content - i" by simp
      have "extractPushCalls_loop content i calls = extractPushCalls_loop content ?n (calls @ ?new)"
        using lt Some by (simp add: extract_unfold [of content i])
      also have "\<dots> = (calls @ ?new) @ extractPushCalls_loop content ?n []"
        by (rule less.hyps [OF d])
      also have "\<dots> = calls @ (?new @ extractPushCalls_loop content ?n [])" by simp
      also have "?new @ extractPushCalls_loop content ?n [] = extractPushCalls_loop content ?n ([] @ ?new)"
        using less.hyps [OF d, of ?new] by simp
      also have "\<dots> = extractPushCalls_loop content i []"
        using lt Some by (simp add: extract_unfold [of content i "[]"])
      finally show ?thesis .
    qed
  qed
qed


lemma nth_shift: "(pre @ rest) ! (length pre + i) = rest ! i"
  by (simp add: nth_append)

lemma skip_ws_shift:
  "skip_ws (pre @ rest) (length pre + cursor) = length pre + skip_ws rest cursor"
proof (induction "length rest - cursor" arbitrary: cursor rule: less_induct)
  case less
  show ?case
  proof (cases "cursor < length rest \<and> is_space (rest ! cursor)")
    case True
    then have d: "length rest - (cursor + 1) < length rest - cursor" by auto
    from True have "skip_ws (pre @ rest) (length pre + cursor)
        = skip_ws (pre @ rest) (length pre + (cursor + 1))"
      by (subst skip_ws.simps) (simp add: nth_shift)
    also have "\<dots> = length pre + skip_ws rest (cursor + 1)"
      by (rule less.hyps [OF d])
    also from True have "skip_ws rest (cursor + 1) = skip_ws rest cursor"
      by (subst (2) skip_ws.simps) simp
    finally show ?thesis .
  next
    case False
    then have "skip_ws (pre @ rest) (length pre + cursor) = length pre + cursor"
      by (subst skip_ws.simps) (auto simp: nth_shift)
    moreover from False have "skip_ws rest cursor = cursor"
      by (subst skip_ws.simps) auto
    ultimately show ?thesis by simp
  qed
qed

lemma fmb_shift:
  "findMatchingBracket_loop (pre @ rest) (length pre + i) depth stringChar
     = map_option (\<lambda>k. length pre + k) (findMatchingBracket_loop rest i depth stringChar)"
proof (induction "length rest - i" arbitrary: i depth stringChar rule: less_induct)
  case less
  let ?c = "pre @ rest" and ?j = "length pre + i"
  show ?case
  proof (cases "i < length rest")
    case False
    then show ?thesis by (simp add: fmb_end)
  next
    case lt: True
    then have lt': "?j < length ?c" by simp
    have at: "?c ! ?j = rest ! i" by (rule nth_shift)
    have IH: "findMatchingBracket_loop ?c (?j + n) d s
        = map_option (\<lambda>k. length pre + k) (findMatchingBracket_loop rest (i + n) d s)"
      if "0 < n" for n d s
    proof -
      from lt that have "length rest - (i + n) < length rest - i" by simp
      from less.hyps [OF this, of d s] show ?thesis by (simp add: add.assoc)
    qed
    show ?thesis
    proof (cases stringChar)
      case (Some q)
      consider "rest ! i = backslash"
        | "rest ! i \<noteq> backslash" "rest ! i = q"
        | "rest ! i \<noteq> backslash" "rest ! i \<noteq> q" by blast
      then show ?thesis
      proof cases
        case 1
        with lt lt' at Some IH [of 2] show ?thesis by (simp add: fmb_escape)
      next
        case 2
        with lt lt' at Some IH [of 1] show ?thesis by (simp add: fmb_unquote)
      next
        case 3
        with lt lt' at Some IH [of 1] show ?thesis by (simp add: fmb_inside)
      qed
    next
      case None
      consider "is_quote (rest ! i)"
        | "rest ! i = CHR ''[''"
        | "rest ! i = CHR '']''" "depth - 1 = 0"
        | "rest ! i = CHR '']''" "depth - 1 \<noteq> 0"
        | "\<not> is_quote (rest ! i)" "rest ! i \<noteq> CHR ''[''" "rest ! i \<noteq> CHR '']''"
        by blast
      then show ?thesis
      proof cases
        case 1
        with lt lt' at None IH [of 1] show ?thesis by (simp add: fmb_quote)
      next
        case 2
        with lt lt' at None IH [of 1] show ?thesis by (simp add: fmb_open)
      next
        case 3
        with lt lt' at None show ?thesis by (simp add: fmb_close_found)
      next
        case 4
        with lt lt' at None IH [of 1] show ?thesis by (simp add: fmb_close)
      next
        case 5
        with lt lt' at None IH [of 1] show ?thesis by (simp add: fmb_code)
      qed
    qed
  qed
qed

lemma findMatchingBracket_shift:
  "findMatchingBracket (pre @ rest) (length pre + i)
     = map_option (\<lambda>k. length pre + k) (findMatchingBracket rest i)"
  by (simp add: findMatchingBracket_def fmb_shift)

lemma indexOf_shift:
  "indexOf (pre @ rest) t (length pre + k) = map_option (\<lambda>j. length pre + j) (indexOf rest t k)"
  by (simp add: indexOf_def option.map_comp comp_def add.assoc)

lemma slice_shift:
  "slice (pre @ rest) (length pre + a) (length pre + b) = slice rest a b"
  by (simp add: slice_def)


lemma after_hit_shift:
  "after_hit (pre @ rest) (length pre + start)
     = (length pre + fst (after_hit rest start), snd (after_hit rest start))"
proof -
  define cursor where "cursor = skip_ws rest (start + length pushToken)"
  have c: "skip_ws (pre @ rest) (length pre + start + length pushToken) = length pre + cursor"
    using skip_ws_shift [of pre rest "start + length pushToken"]
    by (simp add: cursor_def add.assoc)
  have s2: "skip_ws (pre @ rest) (Suc (length pre + k)) = length pre + skip_ws rest (Suc k)" for k
    using skip_ws_shift [of pre rest "Suc k"] by simp
  have n1: "(pre @ rest) ! Suc (length pre + k) = rest ! Suc k" for k
    using nth_shift [of pre rest "Suc k"] by simp
  have sl: "slice (pre @ rest) (length pre + start) (Suc (length pre + k)) = slice rest start (Suc k)"
    "slice (pre @ rest) (length pre + start) (Suc (Suc (length pre + k))) = slice rest start (Suc (Suc k))"
    for k
    using slice_shift [of pre rest start "Suc k"] slice_shift [of pre rest start "Suc (Suc k)"]
    by simp_all
  show ?thesis
    unfolding after_hit_def c cursor_def [symmetric]
    by (simp add: Let_def findMatchingBracket_shift nth_shift s2 n1 sl split: option.splits)
qed

lemma extract_shift:
  "extractPushCalls_loop (pre @ rest) (length pre + i) calls = extractPushCalls_loop rest i calls"
proof (induction "length rest - i" arbitrary: i calls rule: less_induct)
  case less
  show ?case
  proof (cases "i < length rest")
    case False
    then show ?thesis
      by (simp add: extract_unfold [of "pre @ rest"] extract_unfold [of rest i])
  next
    case lt: True
    show ?thesis
    proof (cases "indexOf rest pushToken i")
      case None
      with lt show ?thesis
        by (simp add: extract_unfold [of "pre @ rest"] extract_unfold [of rest i] indexOf_shift)
    next
      case (Some start)
      let ?n = "fst (after_hit rest start)" and ?new = "snd (after_hit rest start)"
      from indexOf_ge [OF Some] after_hit_gt [of start rest] have "i < ?n" by simp
      with lt have d: "length rest - ?n < length rest - i" by simp
      have "extractPushCalls_loop (pre @ rest) (length pre + i) calls
          = extractPushCalls_loop (pre @ rest) (length pre + ?n) (calls @ ?new)"
        using lt Some
        by (simp add: extract_unfold [of "pre @ rest" "length pre + i"] indexOf_shift after_hit_shift)
      also have "\<dots> = extractPushCalls_loop rest ?n (calls @ ?new)"
        by (rule less.hyps [OF d])
      also have "\<dots> = extractPushCalls_loop rest i calls"
        using lt Some by (simp add: extract_unfold [of rest i])
      finally show ?thesis .
    qed
  qed
qed

lemma extractPushCalls_after:
  "extractPushCalls_loop (pre @ rest) (length pre) calls = calls @ extractPushCalls rest"
  using extract_shift [of pre rest 0 calls] extract_acc [of rest 0 calls]
  by (simp add: extractPushCalls_def)


lemma skip_ws_run:
  assumes "\<forall>c\<in>set ws. is_space c" and "rest = [] \<or> \<not> is_space (hd rest)"
  shows "skip_ws (pre @ ws @ rest) (length pre) = length pre + length ws"
  using assms(1)
proof (induction ws arbitrary: pre)
  case Nil
  from assms(2) have "\<not> (length pre < length (pre @ rest) \<and> is_space ((pre @ rest) ! length pre))"
    by (cases rest) (simp_all add: nth_append)
  then show ?case by (simp add: skip_ws_stop)
next
  case (Cons w ws)
  have "skip_ws (pre @ (w # ws) @ rest) (length pre) = skip_ws (pre @ (w # ws) @ rest) (length pre + 1)"
    using Cons.prems by (subst skip_ws.simps) (simp add: nth_append)
  also have "\<dots> = length (pre @ [w]) + length ws"
    using Cons.IH [of "pre @ [w]"] Cons.prems by simp
  finally show ?case by simp
qed

lemma after_hit_call:
  assumes wf: "\<forall>p\<in>set ps. well_formed p" and cl: "closes_at_end 0 (Code CHR ''['' # ps)"
    and ws1: "\<forall>c\<in>set ws1. is_space c" and ws2: "\<forall>c\<in>set ws2. is_space c"
    and semi: "semi = '';'' \<or> semi = [] \<and> (post = [] \<or> hd post \<noteq> CHR '';'')"
  shows "after_hit (pushToken @ ws1 @ render (Code CHR ''['' # ps) @ ws2 @ '')'' @ semi @ post) 0
     = (length (pushToken @ ws1 @ render (Code CHR ''['' # ps) @ ws2 @ '')'' @ semi),
        [pushToken @ ws1 @ render (Code CHR ''['' # ps) @ ws2 @ '')'' @ semi])"
proof -
  define arr where "arr = render (Code CHR ''['' # ps)"
  define call where "call = pushToken @ ws1 @ arr @ ws2 @ '')'' @ semi"
  define content where "content = call @ post"
  define a where "a = length pushToken + length ws1"
  define e where "e = a + length (render ps)"
  define b where "b = e + 1 + length ws2"
  have arr: "arr = CHR ''['' # render ps" by (simp add: arr_def)
  have wf': "\<forall>p\<in>set (Code CHR ''['' # ps). well_formed p"
    using wf by (simp add: is_quote_def dquote_def squote_def backtick_def)
  have c1: "content = pushToken @ ws1 @ (CHR ''['' # render ps @ ws2 @ '')'' @ semi @ post)"
    by (simp add: content_def call_def arr)
  have c2: "content = (pushToken @ ws1) @ arr @ (ws2 @ '')'' @ semi @ post)"
    by (simp add: content_def call_def)
  have c3: "content = (pushToken @ ws1 @ arr) @ ws2 @ (CHR '')'' # semi @ post)"
    by (simp add: content_def call_def)
  have c4: "content = (pushToken @ ws1 @ arr @ ws2 @ '')'') @ semi @ post"
    by (simp add: content_def call_def)
  have la: "length (pushToken @ ws1) = a" by (simp add: a_def)
  have le: "length (pushToken @ ws1 @ arr) = e + 1" by (simp add: e_def a_def arr)
  have lb: "length (pushToken @ ws1 @ arr @ ws2) = b" by (simp add: b_def e_def a_def arr)
  have lb1: "length (pushToken @ ws1 @ arr @ ws2 @ '')'') = b + 1"
    by (simp add: b_def e_def a_def arr)
  have cur: "skip_ws content (length pushToken) = a"
    unfolding c1 a_def using skip_ws_run [OF ws1, of "CHR ''['' # render ps @ ws2 @ '')'' @ semi @ post" pushToken]
    by (simp add: is_space_def)
  have at_a: "a < length content" "content ! a = CHR ''[''"
    unfolding c1 a_def by (simp_all add: nth_append)
  have m: "findMatchingBracket content a = Some e"
    unfolding c2 findMatchingBracket_def la [symmetric] arr_def
    using fmb_closes_at_end [OF wf' cl, of "pushToken @ ws1" "ws2 @ '')'' @ semi @ post"]
    by (simp add: e_def a_def)
  have aft: "skip_ws content (Suc e) = b"
    unfolding c3 le [symmetric] b_def
    using skip_ws_run [OF ws2, of "CHR '')'' # semi @ post" "pushToken @ ws1 @ arr"]
    by (simp add: is_space_def e_def a_def arr add.assoc)
  have c5: "content = (pushToken @ ws1 @ arr @ ws2) @ CHR '')'' # (semi @ post)"
    by (simp add: content_def call_def)
  have at_b: "b < length content" "content ! b = CHR '')''"
  proof -
    show "content ! b = CHR '')''"
      unfolding c5 lb [symmetric] by (rule nth_append_length)
    show "b < length content"
      unfolding c5 lb [symmetric] by simp
  qed
  have lcall: "length call = b + 1 + length semi"
    using lb1 by (simp add: call_def)
  have sl: "slice content 0 (length call) = call"
    by (simp add: slice_def content_def)
  have tr: "trim call = call"
    by (rule trim_id) (use semi in \<open>auto simp: call_def pushToken_def is_space_def\<close>)
  from semi consider (s) "semi = '';''" | (n) "semi = []" "post = [] \<or> hd post \<noteq> CHR '';''"
    by blast
  then have "after_hit content 0 = (length call, [call])"
  proof cases
    case s
    have c6: "content = (pushToken @ ws1 @ arr @ ws2 @ '')'') @ CHR '';'' # post"
      using s by (simp add: content_def call_def)
    have "content ! (b + 1) = CHR '';''"
      unfolding c6 lb1 [symmetric] by (rule nth_append_length)
    moreover have "b + 1 < length content" using lcall s by (simp add: content_def)
    moreover have "length call = b + 1 + 1" using lcall s by simp
    ultimately show ?thesis
      using sl tr at_a(1) at_b(1)
      by (simp add: after_hit_def cur Let_def at_a(2) m aft at_b(2) not_le [symmetric])
  next
    case n
    have "\<not> (b + 1 < length content \<and> content ! (b + 1) = CHR '';'')"
    proof (cases post)
      case Nil
      with n lcall show ?thesis by (simp add: content_def)
    next
      case (Cons x xs)
      with n have "x \<noteq> CHR '';''" by simp
      moreover have c7: "content = (pushToken @ ws1 @ arr @ ws2 @ '')'') @ x # xs"
        using n Cons by (simp add: content_def call_def)
      have "content ! (b + 1) = x"
        unfolding c7 lb1 [symmetric] by (rule nth_append_length)
      ultimately show ?thesis by simp
    qed
    moreover have "length call = b + 1" using lcall n by simp
    ultimately show ?thesis
      using sl tr at_a(1) at_b(1)
      by (simp add: after_hit_def cur Let_def at_a(2) m aft at_b(2) not_le [symmetric])
  qed
  then show ?thesis
    by (simp add: content_def call_def arr_def)
qed

lemma extract_call_then_rest:
  assumes wf: "\<forall>p\<in>set ps. well_formed p" and cl: "closes_at_end 0 (Code CHR ''['' # ps)"
    and ws1: "\<forall>c\<in>set ws1. is_space c" and ws2: "\<forall>c\<in>set ws2. is_space c"
    and semi: "semi = '';'' \<or> semi = [] \<and> (post = [] \<or> hd post \<noteq> CHR '';'')"
  shows "extractPushCalls ((pushToken @ ws1 @ render (Code CHR ''['' # ps) @ ws2 @ '')'' @ semi) @ post)
     = (pushToken @ ws1 @ render (Code CHR ''['' # ps) @ ws2 @ '')'' @ semi) # extractPushCalls post"
proof -
  define call where "call = pushToken @ ws1 @ render (Code CHR ''['' # ps) @ ws2 @ '')'' @ semi"
  have ah: "after_hit (call @ post) 0 = (length call, [call])"
    using after_hit_call [OF assms] by (simp add: call_def)
  have i0: "indexOf (call @ post) pushToken 0 = Some 0"
    unfolding call_def using indexOf_prefix [of pushToken] by (simp add: pushToken_def)
  have "0 < length (call @ post)" by (simp add: call_def pushToken_def)
  then have "extractPushCalls_loop (call @ post) 0 []
      = extractPushCalls_loop (call @ post) (length call) [call]"
    by (subst extract_unfold) (simp add: i0 ah)
  also have "\<dots> = [call] @ extractPushCalls post"
    by (rule extractPushCalls_after)
  finally show ?thesis by (simp add: extractPushCalls_def call_def)
qed


section \<open>Facts about the pipeline and the Aggregator\<close>

lemma upt_add_Suc: "[i..<i + Suc n] = i # [Suc i..<Suc i + n]"
  using upt_conv_Cons [of i "i + Suc n"] by simp

lemma forEach_pushCalls_eq:
  "forEach_pushCalls h snippets i (combined, res) =
     (combined @ concat (map (\<lambda>s. if success (parseScriptContentDetailed h s)
                                    then components (parseScriptContentDetailed h s) else []) snippets),
      res @ map (\<lambda>(j, s). indexed (parseScriptContentDetailed h s) j
                             (substring (collapse_ws False s) 0 120))
                (zip [i..<i + length snippets] snippets))"
proof (induction snippets arbitrary: i combined res)
  case Nil
  then show ?case by simp
next
  case (Cons s snippets)
  have u: "[i..<i + length (s # snippets)] = i # [i + 1..<(i + 1) + length snippets]"
    using upt_add_Suc [of i "length snippets"] by simp
  show ?case
    unfolding u by (simp add: Cons.IH Let_def)
qed

lemma parseStringPayload_shape:
  "(success (parseStringPayload h s) \<and> dataType (parseStringPayload h s) = Some ComponentData
      \<and> error (parseStringPayload h s) = None)
   \<or> (success (parseStringPayload h s) \<and> dataType (parseStringPayload h s) = Some ModuleLoading
      \<and> components (parseStringPayload h s) = [] \<and> error (parseStringPayload h s) = None)
   \<or> (\<not> success (parseStringPayload h s) \<and> dataType (parseStringPayload h s) = None
      \<and> components (parseStringPayload h s) = [] \<and> error (parseStringPayload h s) \<noteq> None)"
  by (simp add: parseStringPayload_def componentSuccess_def Let_def
           split: Branch.splits sum.splits)

lemma parseScriptContentDetailed_try_shape:
  assumes "parseScriptContentDetailed_try h s = Inr r"
  shows "(success r \<and> dataType r = Some ComponentData \<and> error r = None)
   \<or> (success r \<and> dataType r = Some ModuleLoading \<and> components r = [] \<and> error r = None)
   \<or> (\<not> success r \<and> dataType r = None \<and> components r = [] \<and> error r \<noteq> None)"
proof -
  from assms consider v where "r = invalidStructure h v"
    | p where "r = parseStringPayload h p"
    | v where "r = componentSuccess v"
    by (auto simp: parseScriptContentDetailed_try_def split: sum.splits json.splits if_splits)
  then show ?thesis
  proof cases
    case 1
    then show ?thesis by (simp add: invalidStructure_def)
  next
    case 2
    with parseStringPayload_shape [of h p] show ?thesis by simp
  next
    case 3
    then show ?thesis by (simp add: componentSuccess_def)
  qed
qed

lemma parseScriptContentDetailed_shape:
  "(success (parseScriptContentDetailed h s)
      \<and> dataType (parseScriptContentDetailed h s) = Some ComponentData
      \<and> error (parseScriptContentDetailed h s) = None)
   \<or> (success (parseScriptContentDetailed h s)
      \<and> dataType (parseScriptContentDetailed h s) = Some ModuleLoading
      \<and> components (parseScriptContentDetailed h s) = []
      \<and> error (parseScriptContentDetailed h s) = None)
   \<or> (\<not> success (parseScriptContentDetailed h s)
      \<and> dataType (parseScriptContentDetailed h s) = None
      \<and> components (parseScriptContentDetailed h s) = []
      \<and> error (parseScriptContentDetailed h s) \<noteq> None)"
proof (cases "parseScriptContentDetailed_try h s")
  case (Inl m)
  then show ?thesis by (simp add: parseScriptContentDetailed_def)
next
  case (Inr r)
  with parseScriptContentDetailed_try_shape [OF Inr] show ?thesis
    by (simp add: parseScriptContentDetailed_def)
qed

lemma parseDocumentContent_results:
  "results (parseDocumentContent h content) =
     map (\<lambda>(j, s). indexed (parseScriptContentDetailed h s) j
                      (substring (collapse_ws False s) 0 120))
         (zip [0..<length (extractPushCalls content)] (extractPushCalls content))"
  by (simp add: parseDocumentContent_def Let_def forEach_pushCalls_eq)

lemma parseDocumentContent_combined:
  "combinedComponents (parseDocumentContent h content) =
     concat (map (\<lambda>s. if success (parseScriptContentDetailed h s)
                       then components (parseScriptContentDetailed h s) else [])
                 (extractPushCalls content))"
  by (simp add: parseDocumentContent_def Let_def forEach_pushCalls_eq)

lemma filter_indexed_zip:
  "map components (filter P (map (\<lambda>(j, s). indexed (g s) j (p s)) (zip [i..<i + length xs] xs)))
     = map (\<lambda>s. components (g s)) (filter (\<lambda>s. P (indexed (g s) 0 [])) xs)"
  if "\<And>r j q. P (indexed r j q) = P (indexed r 0 [])"
  using that
proof (induction xs arbitrary: i)
  case Nil
  then show ?case by simp
next
  case (Cons x xs)
  have u: "[i..<i + length (x # xs)] = i # [i + 1..<(i + 1) + length xs]"
    using upt_add_Suc [of i "length xs"] by simp
  from Cons.IH [OF Cons.prems, of "i + 1"] Cons.prems [of "g x" i "p x"] show ?case
    unfolding u by (simp add: indexed_def)
qed

lemma concat_map_if_filter:
  "concat (map (\<lambda>s. if Q s then f s else []) xs) = concat (map f (filter Q xs))"
  by (induction xs) simp_all

lemma concat_filter_empty:
  "(\<And>x. x \<in> set xs \<Longrightarrow> \<not> Q x \<Longrightarrow> P x \<Longrightarrow> f x = []) \<Longrightarrow> (\<And>x. Q x \<Longrightarrow> P x)
   \<Longrightarrow> concat (map f (filter P xs)) = concat (map f (filter Q xs))"
  by (induction xs) auto

lemma length_filter_partition3:
  assumes "\<And>x. x \<in> set xs \<Longrightarrow> (A x \<and> \<not> B x \<and> \<not> C x) \<or> (\<not> A x \<and> B x \<and> \<not> C x) \<or> (\<not> A x \<and> \<not> B x \<and> C x)"
  shows "length xs = length (filter A xs) + length (filter B xs) + length (filter C xs)"
  using assms by (induction xs) auto

lemma search_None_iff: "search t xs = None \<longleftrightarrow> \<not> includes_str xs t"
  by (induction xs) auto

lemma extractPushCalls_no_token:
  assumes "\<not> includes_str content pushToken"
  shows "extractPushCalls content = []"
proof -
  from assms have "indexOf content pushToken 0 = None"
    by (simp add: indexOf_def search_None_iff)
  then show ?thesis
    unfolding extractPushCalls_def
    by (subst extractPushCalls_loop.simps) simp
qed

section \<open>The sample document, evaluated\<close>

lemma sample_calls:
  \<open>extractPushCalls sample_document =
     [''self.__next_f.push([1,"hello"])'', ''self.__next_f.push([2]);'',
      ''self.__next_f.push([3,"1:I[]"])'', ''self.__next_f.push([x])'']\<close>
  by code_simp

lemma sample_call_0:
  \<open>parseScriptContentDetailed sample_host ''self.__next_f.push([1,"hello"])''
     = \<lparr>success = True, components = [textNode ''hello''], error = None,
        dataType = Some ComponentData, debugInfo = None\<rparr>\<close>
  by code_simp

lemma sample_call_1:
  \<open>parseScriptContentDetailed sample_host ''self.__next_f.push([2]);''
     = \<lparr>success = False, components = [],
        error = Some ''Invalid data structure: Expected array with at least 2 elements'',
        dataType = None, debugInfo = Some ''Got: [2]...''\<rparr>\<close>
  by code_simp

lemma sample_call_2:
  \<open>parseScriptContentDetailed sample_host ''self.__next_f.push([3,"1:I[]"])''
     = \<lparr>success = True, components = [], error = None,
        dataType = Some ModuleLoading, debugInfo = Some ''Data starts with: 1:I[]...''\<rparr>\<close>
  by code_simp

lemma sample_call_3:
  \<open>parseScriptContentDetailed sample_host ''self.__next_f.push([x])''
     = \<lparr>success = False, components = [],
        error = Some ''Parse failed: Unable to parse script content as JSON: Unexpected token'',
        dataType = None, debugInfo = Some ''Input length: 23, Error at parsing stage''\<rparr>\<close>
  by code_simp


lemma sample_result:
  \<open>parseDocumentContent sample_host sample_document =
     \<lparr>totalScripts = 4, successCount = 1, failureCount = 2, moduleLoadingCount = 1,
      results =
        [indexed (parseScriptContentDetailed sample_host ''self.__next_f.push([1,"hello"])'') 0
           ''self.__next_f.push([1,"hello"])'',
         indexed (parseScriptContentDetailed sample_host ''self.__next_f.push([2]);'') 1
           ''self.__next_f.push([2]);'',
         indexed (parseScriptContentDetailed sample_host ''self.__next_f.push([3,"1:I[]"])'') 2
           ''self.__next_f.push([3,"1:I[]"])'',
         indexed (parseScriptContentDetailed sample_host ''self.__next_f.push([x])'') 3
           ''self.__next_f.push([x])''],
      combinedComponents = [textNode ''hello'']\<rparr>\<close>
  by code_simp

section \<open>Payload Classifier: the rules and their order\<close>

text \<open>
  Claim C4. For every string, the classifier returns ModuleLoading if the string matches
  \<open>^[0-9a-f]+:I\[\<close> or contains \<open>static/chunks/\<close>; otherwise ComponentData if it
  matches \<open>^[0-9a-z]+:\[\<close> case-insensitively; otherwise Unknown. The rules are checked
  in this order.
\<close>

theorem detectDataType_rules:
  "detectDataType s =
     (if matches_key_regex is_hex_lower '':I['' s \<or> (\<exists>u v. s = u @ ''static/chunks/'' @ v)
      then ModuleLoading
      else if matches_key_regex is_alnum_ci '':['' s then ComponentData
      else Unknown)"
proof -
  have 1: "test_key_then is_hex_lower '':I['' s \<longleftrightarrow> matches_key_regex is_hex_lower '':I['' s"
    by (rule test_key_then_iff) (simp_all add: is_hex_lower_def)
  have 2: "test_key_then is_alnum_ci '':['' s \<longleftrightarrow> matches_key_regex is_alnum_ci '':['' s"
    by (rule test_key_then_iff) (simp_all add: is_alnum_ci_def)
  show ?thesis
    unfolding detectDataType_def 1 2 includes_str_iff by simp
qed


theorem detectDataType_rules_witness:
  "detectDataType ''4c:[1]'' = ComponentData
   \<and> matches_key_regex is_alnum_ci '':['' ''4c:[1]''
   \<and> \<not> matches_key_regex is_hex_lower '':I['' ''4c:[1]''"
proof -
  have d: "detectDataType ''4c:[1]'' = ComponentData"
    by (simp add: detectDataType_def test_key_then_def is_hex_lower_def is_alnum_ci_def)
  with detectDataType_rules [of "''4c:[1]''"] show ?thesis
    by (simp split: if_splits)
qed

text \<open>
  Claim C10. A string that the classifier calls ComponentData contains a colon, so the
  branch of the per-call pipeline for a component-data string without a colon (the
  second parse attempt on the unmodified string) is never taken.
\<close>

theorem component_data_has_colon:
  "(detectDataType s = ComponentData \<longrightarrow> CHR '':'' \<in> set s \<and> includes_str s '':'')
   \<and> payloadBranch s \<noteq> FallbackBranch"
proof -
  have c: "CHR '':'' \<in> set s" if "detectDataType s = ComponentData"
  proof -
    from that have "test_key_then is_alnum_ci '':['' s"
      by (simp add: detectDataType_def split: if_splits)
    then show ?thesis by (rule test_key_then_colon)
  qed
  then have "detectDataType s = ComponentData \<longrightarrow> includes_str s '':''"
    by (simp add: includes_str_single)
  with c show ?thesis
    by (auto simp: payloadBranch_def Let_def)
qed

theorem component_data_has_colon_witness:
  "detectDataType ''4c:[1]'' = ComponentData
   \<and> CHR '':'' \<in> set ''4c:[1]''
   \<and> includes_str ''4c:[1]'' '':''
   \<and> payloadBranch ''4c:[1]'' \<noteq> FallbackBranch"
proof -
  have d: "detectDataType ''4c:[1]'' = ComponentData"
    by (simp add: detectDataType_def test_key_then_def is_hex_lower_def is_alnum_ci_def)
  with component_data_has_colon [of "''4c:[1]''"] show ?thesis
    by blast
qed

section \<open>Tree Builder: sequences without the tag marker\<close>



section \<open>Tree Builder: the children entry of an element\<close>

text \<open>
  Claim C3, as stated, fails: a descriptor whose property mapping has a children entry
  with a falsy value keeps the entry among the element's properties.
\<close>

theorem children_entry_remains_counterexample:
  "\<not> (\<forall>componentArray node c.
        parseComponent componentArray = Some node \<and>
        get_children (propsOf componentArray) = Some c
        \<longrightarrow> ''children'' \<notin> fst ` set (props node))"
proof
  assume a: "\<forall>componentArray node c.
        parseComponent componentArray = Some node \<and>
        get_children (propsOf componentArray) = Some c
        \<longrightarrow> ''children'' \<notin> fst ` set (props node)"
  let ?xs = "[JString ''$'', JString ''div'', JNull, JObject [(''children'', JNull)]]"
  have 1: "parseComponent ?xs
      = Some (ParsedComponent ''component'' (JString ''div'') [(''children'', JNull)] None)"
    by (simp add: parseComponent.simps propsOf_def get_children_def spread_def)
  have 2: "get_children (propsOf ?xs) = Some JNull"
    by (simp add: propsOf_def get_children_def)
  from a 1 2 have "''children'' \<notin> fst ` set (props (ParsedComponent ''component'' (JString ''div'') [(''children'', JNull)] None))"
    by blast
  then show False by simp
qed

text \<open>
  Claim C3, amended. For every element built from a descriptor whose property mapping
  has a children entry with a truthy value (any value but null, false, zero and the empty
  string), the element's properties do not have the key \<open>children\<close>, and the element's
  children are the expansion of that entry.
\<close>

theorem truthy_children_consumed:
  assumes "parseComponent componentArray = Some node"
    and "get_children (propsOf componentArray) = Some c"
    and "truthy c"
  shows "''children'' \<notin> fst ` set (props node) \<and> children node = Some (parseChildren c)"
  using assms
  by (subst (asm) parseComponent.simps)
     (auto simp: Let_def delete_key_def split: if_splits)

theorem truthy_children_consumed_witness:
  "parseComponent [JString ''$'', JString ''div'', JNull,
                   JObject [(''className'', JString ''a''), (''children'', JString ''hi'')]]
     = Some (ParsedComponent ''component'' (JString ''div'') [(''className'', JString ''a'')]
               (Some [ChildText ''hi'']))
   \<and> ''children'' \<notin> fst ` set [(''className'', JString ''a'')]"
proof -
  let ?xs = "[JString ''$'', JString ''div'', JNull,
              JObject [(''className'', JString ''a''), (''children'', JString ''hi'')]]"
  let ?node = "ParsedComponent ''component'' (JString ''div'') [(''className'', JString ''a'')]
               (Some [ChildText ''hi''])"
  have 0: "parseChildren (JString ''hi'') = [ChildText ''hi'']"
    by (simp add: parseChildren.simps)
  have 1: "parseComponent ?xs = Some ?node"
    by (simp add: parseComponent.simps propsOf_def get_children_def spread_def delete_key_def 0)
  have 2: "get_children (propsOf ?xs) = Some (JString ''hi'')"
    by (simp add: propsOf_def get_children_def)
  have 3: "truthy (JString ''hi'')" by simp
  from truthy_children_consumed [OF 1 2 3] 1 show ?thesis by simp
qed

section \<open>Aggregator: the combined node sequence\<close>

text \<open>
  Claim C1. For every input text, the combined node sequence of the aggregate result is
  the concatenation, in call order, of the node sequences of exactly the outcomes that
  are successes classified component-data. Module-loading successes have an empty node
  sequence and failures have none, so they contribute nothing. The outcomes are those of
  the calls, in the order of the calls.
\<close>

theorem combinedComponents_from_component_data:
  "combinedComponents (parseDocumentContent h content)
     = concat (map components
         (filter (\<lambda>r. success r \<and> dataType r = Some ComponentData)
                 (results (parseDocumentContent h content))))
   \<and> (\<forall>r \<in> set (results (parseDocumentContent h content)).
         (dataType r = Some ModuleLoading \<longrightarrow> success r \<and> components r = [])
         \<and> (\<not> success r \<longrightarrow> components r = []))
   \<and> map (\<lambda>r. (index r, success r, dataType r, components r))
          (results (parseDocumentContent h content))
       = map (\<lambda>(j, s). (j, success (parseScriptContentDetailed h s),
                          dataType (parseScriptContentDetailed h s),
                          components (parseScriptContentDetailed h s)))
             (zip [0..<length (extractPushCalls content)] (extractPushCalls content))"
proof -
  let ?calls = "extractPushCalls content"
  let ?p = "parseScriptContentDetailed h"
  have shape: "(dataType (?p s) = Some ModuleLoading \<longrightarrow> success (?p s) \<and> components (?p s) = [])
      \<and> (\<not> success (?p s) \<longrightarrow> components (?p s) = [])
      \<and> (success (?p s) \<and> dataType (?p s) \<noteq> Some ComponentData \<longrightarrow> components (?p s) = [])" for s
    using parseScriptContentDetailed_shape [of h s] by auto
  have 1: "combinedComponents (parseDocumentContent h content)
     = concat (map (\<lambda>s. components (?p s)) (filter (\<lambda>s. success (?p s)) ?calls))"
    by (simp add: parseDocumentContent_combined concat_map_if_filter)
  have 2: "map components
         (filter (\<lambda>r. success r \<and> dataType r = Some ComponentData)
                 (results (parseDocumentContent h content)))
      = map (\<lambda>s. components (?p s))
          (filter (\<lambda>s. success (?p s) \<and> dataType (?p s) = Some ComponentData) ?calls)"
    unfolding parseDocumentContent_results
    using filter_indexed_zip [of "\<lambda>r. success r \<and> dataType r = Some ComponentData" ?p
        "\<lambda>s. substring (collapse_ws False s) 0 120" 0 ?calls]
    by (simp add: indexed_def)
  have 3: "concat (map (\<lambda>s. components (?p s)) (filter (\<lambda>s. success (?p s)) ?calls))
      = concat (map (\<lambda>s. components (?p s))
          (filter (\<lambda>s. success (?p s) \<and> dataType (?p s) = Some ComponentData) ?calls))"
    by (rule concat_filter_empty) (use shape in auto)
  have a: "combinedComponents (parseDocumentContent h content)
     = concat (map components
         (filter (\<lambda>r. success r \<and> dataType r = Some ComponentData)
                 (results (parseDocumentContent h content))))"
    unfolding 1 2 3 ..
  have b: "\<forall>r \<in> set (results (parseDocumentContent h content)).
         (dataType r = Some ModuleLoading \<longrightarrow> success r \<and> components r = [])
         \<and> (\<not> success r \<longrightarrow> components r = [])"
    unfolding parseDocumentContent_results
    using shape by (auto simp: indexed_def dest!: set_zip_rightD)
  have c: "map (\<lambda>r. (index r, success r, dataType r, components r))
          (results (parseDocumentContent h content))
       = map (\<lambda>(j, s). (j, success (?p s), dataType (?p s), components (?p s)))
             (zip [0..<length ?calls] ?calls)"
    unfolding parseDocumentContent_results
    by (simp add: indexed_def split_def)
  from a b c show ?thesis by blast
qed


theorem combinedComponents_from_component_data_witness:
  "combinedComponents (parseDocumentContent sample_host sample_document)
     = concat (map components
         (filter (\<lambda>r. success r \<and> dataType r = Some ComponentData)
                 (results (parseDocumentContent sample_host sample_document))))
   \<and> combinedComponents (parseDocumentContent sample_host sample_document) = [textNode ''hello'']
   \<and> map (\<lambda>r. (index r, success r, dataType r, components r))
          (results (parseDocumentContent sample_host sample_document))
       = [(0, True, Some ComponentData, [textNode ''hello'']), (1, False, None, []),
          (2, True, Some ModuleLoading, []), (3, False, None, [])]"
  using combinedComponents_from_component_data [of sample_host sample_document]
  by (simp add: sample_result indexed_def sample_call_0 sample_call_1 sample_call_2 sample_call_3)

section \<open>Aggregator: the counts\<close>

text \<open>
  Claim C6. For every input text, the counts of the aggregate result are those derived
  again from its outcome sequence: the total is the length of the sequence, the success
  count is the number of successes tagged component-data, the module-loading count is the
  number of successes tagged module-loading, the failure count is the number of failures,
  and the total is the sum of the three counts.
\<close>

theorem counts_rederived:
  "totalScripts (parseDocumentContent h content) = length (results (parseDocumentContent h content))
   \<and> successCount (parseDocumentContent h content)
       = length (filter (\<lambda>r. success r \<and> dataType r = Some ComponentData)
                        (results (parseDocumentContent h content)))
   \<and> moduleLoadingCount (parseDocumentContent h content)
       = length (filter (\<lambda>r. success r \<and> dataType r = Some ModuleLoading)
                        (results (parseDocumentContent h content)))
   \<and> failureCount (parseDocumentContent h content)
       = length (filter (\<lambda>r. \<not> success r) (results (parseDocumentContent h content)))
   \<and> totalScripts (parseDocumentContent h content)
       = successCount (parseDocumentContent h content)
         + moduleLoadingCount (parseDocumentContent h content)
         + failureCount (parseDocumentContent h content)"
proof -
  let ?R = "parseDocumentContent h content"
  let ?p = "parseScriptContentDetailed h"
  obtain combined res where f: "forEach_pushCalls h (extractPushCalls content) 0 ([], []) = (combined, res)"
    by (cases "forEach_pushCalls h (extractPushCalls content) 0 ([], [])") blast
  have fields: "totalScripts ?R = length (results ?R)"
    "successCount ?R = length (filter (\<lambda>r. success r \<and> dataType r = Some ComponentData) (results ?R))"
    "moduleLoadingCount ?R = length (filter (\<lambda>r. dataType r = Some ModuleLoading) (results ?R))"
    "failureCount ?R = length (filter (\<lambda>r. \<not> success r) (results ?R))"
    by (simp_all add: parseDocumentContent_def Let_def f)
  have shape: "(success r \<and> dataType r = Some ComponentData)
      \<or> (success r \<and> dataType r = Some ModuleLoading)
      \<or> (\<not> success r \<and> dataType r = None)" if "r \<in> set (results ?R)" for r
  proof -
    from that obtain j s where "r = indexed (?p s) j (substring (collapse_ws False s) 0 120)"
      unfolding parseDocumentContent_results by auto
    with parseScriptContentDetailed_shape [of h s] show ?thesis
      by (auto simp: indexed_def)
  qed
  have m: "filter (\<lambda>r. dataType r = Some ModuleLoading) (results ?R)
      = filter (\<lambda>r. success r \<and> dataType r = Some ModuleLoading) (results ?R)"
  proof (rule filter_cong)
    fix r assume "r \<in> set (results ?R)"
    from shape [OF this]
    show "(dataType r = Some ModuleLoading) = (success r \<and> dataType r = Some ModuleLoading)"
      by auto
  qed simp
  have "length (results ?R)
      = length (filter (\<lambda>r. success r \<and> dataType r = Some ComponentData) (results ?R))
        + length (filter (\<lambda>r. success r \<and> dataType r = Some ModuleLoading) (results ?R))
        + length (filter (\<lambda>r. \<not> success r) (results ?R))"
    by (rule length_filter_partition3) (use shape in auto)
  with fields m show ?thesis by simp
qed

theorem counts_rederived_witness:
  "totalScripts (parseDocumentContent sample_host sample_document) = 4
   \<and> successCount (parseDocumentContent sample_host sample_document) = 1
   \<and> moduleLoadingCount (parseDocumentContent sample_host sample_document) = 1
   \<and> failureCount (parseDocumentContent sample_host sample_document) = 2
   \<and> length (filter (\<lambda>r. success r \<and> dataType r = Some ModuleLoading)
              (results (parseDocumentContent sample_host sample_document))) = 1
   \<and> length (filter (\<lambda>r. \<not> success r)
              (results (parseDocumentContent sample_host sample_document))) = 2"
  using counts_rederived [of sample_host sample_document]
  by (simp add: sample_result)

section \<open>Aggregator: failures are data\<close>

text \<open>
  Claim C7. The document parser never raises. A text without the invocation token gives
  the empty aggregate result with all counts zero. Otherwise there is one outcome per
  call, each computed from its own snippet alone. Whatever is thrown inside the per-call
  pipeline is caught and becomes a failure outcome with the message; this is so for a
  missing prefix, for mismatched brackets and for text that is not JSON, and a decoded
  value that is not a sequence of at least two elements is a failure outcome as well.
  Every failure outcome carries an error message and no nodes.
\<close>

theorem failures_are_data:
  "(\<not> includes_str content pushToken \<longrightarrow>
      parseDocumentContent h content
        = \<lparr>totalScripts = 0, successCount = 0, failureCount = 0, moduleLoadingCount = 0,
           results = [], combinedComponents = []\<rparr>)
   \<and> results (parseDocumentContent h content)
       = map (\<lambda>(j, s). indexed (parseScriptContentDetailed h s) j
                          (substring (collapse_ws False s) 0 120))
             (zip [0..<length (extractPushCalls content)] (extractPushCalls content))
   \<and> (\<forall>message. parseScriptContentDetailed_try h snippet = Inl message \<longrightarrow>
        parseScriptContentDetailed h snippet
          = \<lparr>success = False, components = [],
             error = Some (''Parse failed: '' @ message), dataType = None,
             debugInfo = Some (''Input length: '' @ show_nat (length snippet)
                                 @ '', Error at parsing stage'')\<rparr>)
   \<and> (indexOf snippet pushPrefix 0 = None \<longrightarrow>
        parseScriptContentDetailed_try h snippet = Inl ''Invalid Next.js script format'')
   \<and> (\<forall>startIndex. indexOf snippet pushPrefix 0 = Some startIndex \<and>
          (case lastIndexOf snippet pushSuffix of
             None \<Rightarrow> True
           | Some contentEnd \<Rightarrow> contentEnd \<le> startIndex + length pushPrefix) \<longrightarrow>
        parseScriptContentDetailed_try h snippet
          = Inl ''Invalid Next.js script format - mismatched brackets'')
   \<and> (\<forall>startIndex contentEnd message.
          indexOf snippet pushPrefix 0 = Some startIndex \<and>
          lastIndexOf snippet pushSuffix = Some contentEnd \<and>
          startIndex + length pushPrefix < contentEnd \<and>
          JSON_parse h (strip_newline_at_end (strip_newline_before_close
             (''['' @ substring snippet (startIndex + length pushPrefix) contentEnd @ '']'')))
            = Inl message \<longrightarrow>
        parseScriptContentDetailed_try h snippet
          = Inl (''Unable to parse script content as JSON: '' @ message))
   \<and> (\<forall>cleanContent parsedData.
          extractDataFromScript h snippet = Inr cleanContent \<and>
          JSON_parse h cleanContent = Inr parsedData \<and>
          (\<forall>xs. parsedData = JArray xs \<longrightarrow> length xs < 2) \<longrightarrow>
        parseScriptContentDetailed h snippet
          = \<lparr>success = False, components = [],
             error = Some ''Invalid data structure: Expected array with at least 2 elements'',
             dataType = None,
             debugInfo = Some (''Got: '' @ substring (JSON_stringify h parsedData) 0 100 @ ''...'')\<rparr>)
   \<and> (\<not> success (parseScriptContentDetailed h snippet) \<longrightarrow>
        error (parseScriptContentDetailed h snippet) \<noteq> None
        \<and> components (parseScriptContentDetailed h snippet) = [])"
proof -
  have a: "\<not> includes_str content pushToken \<longrightarrow>
      parseDocumentContent h content
        = \<lparr>totalScripts = 0, successCount = 0, failureCount = 0, moduleLoadingCount = 0,
           results = [], combinedComponents = []\<rparr>"
    by (simp add: parseDocumentContent_def extractPushCalls_no_token)
  have c: "\<forall>message. parseScriptContentDetailed_try h snippet = Inl message \<longrightarrow>
        parseScriptContentDetailed h snippet
          = \<lparr>success = False, components = [],
             error = Some (''Parse failed: '' @ message), dataType = None,
             debugInfo = Some (''Input length: '' @ show_nat (length snippet)
                                 @ '', Error at parsing stage'')\<rparr>"
    by (simp add: parseScriptContentDetailed_def)
  have d1: "indexOf snippet pushPrefix 0 = None \<longrightarrow>
        parseScriptContentDetailed_try h snippet = Inl ''Invalid Next.js script format''"
    by (simp add: parseScriptContentDetailed_try_def extractDataFromScript_def)
  have d2: "\<forall>startIndex. indexOf snippet pushPrefix 0 = Some startIndex \<and>
          (case lastIndexOf snippet pushSuffix of
             None \<Rightarrow> True
           | Some contentEnd \<Rightarrow> contentEnd \<le> startIndex + length pushPrefix) \<longrightarrow>
        parseScriptContentDetailed_try h snippet
          = Inl ''Invalid Next.js script format - mismatched brackets''"
    by (simp add: parseScriptContentDetailed_try_def extractDataFromScript_def Let_def
             split: option.splits)
  have d3: "\<forall>startIndex contentEnd message.
          indexOf snippet pushPrefix 0 = Some startIndex \<and>
          lastIndexOf snippet pushSuffix = Some contentEnd \<and>
          startIndex + length pushPrefix < contentEnd \<and>
          JSON_parse h (strip_newline_at_end (strip_newline_before_close
             (''['' @ substring snippet (startIndex + length pushPrefix) contentEnd @ '']'')))
            = Inl message \<longrightarrow>
        parseScriptContentDetailed_try h snippet
          = Inl (''Unable to parse script content as JSON: '' @ message)"
    by (simp add: parseScriptContentDetailed_try_def extractDataFromScript_def Let_def)
  have d4: "\<forall>cleanContent parsedData.
          extractDataFromScript h snippet = Inr cleanContent \<and>
          JSON_parse h cleanContent = Inr parsedData \<and>
          (\<forall>xs. parsedData = JArray xs \<longrightarrow> length xs < 2) \<longrightarrow>
        parseScriptContentDetailed h snippet
          = \<lparr>success = False, components = [],
             error = Some ''Invalid data structure: Expected array with at least 2 elements'',
             dataType = None,
             debugInfo = Some (''Got: '' @ substring (JSON_stringify h parsedData) 0 100 @ ''...'')\<rparr>"
    by (auto simp: parseScriptContentDetailed_def parseScriptContentDetailed_try_def
          invalidStructure_def split: json.splits)
  have e: "\<not> success (parseScriptContentDetailed h snippet) \<longrightarrow>
        error (parseScriptContentDetailed h snippet) \<noteq> None
        \<and> components (parseScriptContentDetailed h snippet) = []"
    using parseScriptContentDetailed_shape [of h snippet] by auto
  from a parseDocumentContent_results [of h content] c d1 d2 d3 d4 e show ?thesis
    by (intro conjI)
qed

theorem failures_are_data_witness:
  \<open>parseDocumentContent sample_host ''no call here''
     = \<lparr>totalScripts = 0, successCount = 0, failureCount = 0, moduleLoadingCount = 0,
        results = [], combinedComponents = []\<rparr>
   \<and> map (\<lambda>r. (index r, success r, error r))
         (results (parseDocumentContent sample_host sample_document))
       = [(0, True, None),
          (1, False, Some ''Invalid data structure: Expected array with at least 2 elements''),
          (2, True, None),
          (3, False, Some ''Parse failed: Unable to parse script content as JSON: Unexpected token'')]
   \<and> error (parseScriptContentDetailed sample_host ''push([1,2])'')
       = Some ''Parse failed: Invalid Next.js script format''
   \<and> error (parseScriptContentDetailed sample_host ''self.__next_f.push([1,2'')
       = Some ''Parse failed: Invalid Next.js script format - mismatched brackets''
   \<and> error (parseScriptContentDetailed sample_host ''self.__next_f.push([x])'')
       = Some ''Parse failed: Unable to parse script content as JSON: Unexpected token''
   \<and> error (parseScriptContentDetailed sample_host ''self.__next_f.push([2]);'')
       = Some ''Invalid data structure: Expected array with at least 2 elements''\<close>
proof -
  have a: "\<not> includes_str ''no call here'' pushToken"
    by (simp add: pushToken_def)
  from failures_are_data [of "''no call here''" sample_host "''push([1,2])''"] a
  have A: \<open>parseDocumentContent sample_host ''no call here''
     = \<lparr>totalScripts = 0, successCount = 0, failureCount = 0, moduleLoadingCount = 0,
        results = [], combinedComponents = []\<rparr>\<close>
    by blast
  have b: "results (parseDocumentContent sample_host sample_document)
       = map (\<lambda>(j, s). indexed (parseScriptContentDetailed sample_host s) j
                          (substring (collapse_ws False s) 0 120))
             (zip [0..<length (extractPushCalls sample_document)] (extractPushCalls sample_document))"
    using failures_are_data [of sample_document sample_host "[]"] by blast
  have B: \<open>map (\<lambda>r. (index r, success r, error r))
         (results (parseDocumentContent sample_host sample_document))
       = [(0, True, None),
          (1, False, Some ''Invalid data structure: Expected array with at least 2 elements''),
          (2, True, None),
          (3, False, Some ''Parse failed: Unable to parse script content as JSON: Unexpected token'')]\<close>
    unfolding b sample_calls
    by (simp add: indexed_def upt_rec sample_call_0 sample_call_1 sample_call_2 sample_call_3)
  have c: "indexOf ''push([1,2])'' pushPrefix 0 = None"
    by code_simp
  from failures_are_data [of "[]" sample_host "''push([1,2])''"] c
  have "parseScriptContentDetailed_try sample_host ''push([1,2])'' = Inl ''Invalid Next.js script format''"
    by blast
  with failures_are_data [of "[]" sample_host "''push([1,2])''"]
  have C: "error (parseScriptContentDetailed sample_host ''push([1,2])'')
       = Some ''Parse failed: Invalid Next.js script format''"
    by simp
  have d: "indexOf ''self.__next_f.push([1,2'' pushPrefix 0 = Some 0"
    "lastIndexOf ''self.__next_f.push([1,2'' pushSuffix = None"
    by code_simp+
  from failures_are_data [of "[]" sample_host "''self.__next_f.push([1,2''"] d
  have "parseScriptContentDetailed_try sample_host ''self.__next_f.push([1,2''
      = Inl ''Invalid Next.js script format - mismatched brackets''"
    by simp
  with failures_are_data [of "[]" sample_host "''self.__next_f.push([1,2''"]
  have D: "error (parseScriptContentDetailed sample_host ''self.__next_f.push([1,2'')
       = Some ''Parse failed: Invalid Next.js script format - mismatched brackets''"
    by simp
  have e: "indexOf ''self.__next_f.push([x])'' pushPrefix 0 = Some 0"
    "lastIndexOf ''self.__next_f.push([x])'' pushSuffix = Some 21"
    "0 + length pushPrefix < (21::nat)"
    "JSON_parse sample_host (strip_newline_at_end (strip_newline_before_close
             (''['' @ substring ''self.__next_f.push([x])'' (0 + length pushPrefix) 21 @ '']'')))
            = Inl ''Unexpected token''"
    by code_simp+
  from failures_are_data [of "[]" sample_host "''self.__next_f.push([x])''"] e
  have "parseScriptContentDetailed_try sample_host ''self.__next_f.push([x])''
      = Inl (''Unable to parse script content as JSON: '' @ ''Unexpected token'')"
    by blast
  with failures_are_data [of "[]" sample_host "''self.__next_f.push([x])''"]
  have E: "error (parseScriptContentDetailed sample_host ''self.__next_f.push([x])'')
       = Some ''Parse failed: Unable to parse script content as JSON: Unexpected token''"
    by simp
  have f: "extractDataFromScript sample_host ''self.__next_f.push([2]);'' = Inr ''[2]''"
    "JSON_parse sample_host ''[2]'' = Inr (JArray [JNumber 2])"
    by code_simp+
  have f3: "\<forall>xs. JArray [JNumber 2] = JArray xs \<longrightarrow> length xs < 2"
    by simp
  from failures_are_data [of "[]" sample_host "''self.__next_f.push([2]);''"] f f3
  have "parseScriptContentDetailed sample_host ''self.__next_f.push([2]);''
          = \<lparr>success = False, components = [],
             error = Some ''Invalid data structure: Expected array with at least 2 elements'',
             dataType = None,
             debugInfo = Some (''Got: '' @ substring (JSON_stringify sample_host (JArray [JNumber 2])) 0 100 @ ''...'')\<rparr>"
    by blast
  then have F: "error (parseScriptContentDetailed sample_host ''self.__next_f.push([2]);'')
       = Some ''Invalid data structure: Expected array with at least 2 elements''"
    by simp
  from A B C D E F show ?thesis by blast
qed


section \<open>Per-call pipeline: a payload string of unknown kind\<close>




section \<open>Bracket Matcher and Call Extractor: brackets inside string literals\<close>

text \<open>
  Claim C5. From a start index holding an opening bracket, the matcher passes over every
  string literal in single, double or backtick quotes, whatever its body holds (a
  backslash in the body takes the next character with it): if the code characters around
  the literals close the bracket at their last character, the matcher returns that
  position, and the extractor, given the invocation token, white space, this array, white
  space, a closing parenthesis and an optional semicolon, extracts exactly that snippet
  and goes on with the text after it. The hypotheses do not look at the bodies of the
  literals, so brackets and parentheses in them change nothing. If the depth of the code
  characters never returns to zero, the matcher reports that there is no match, also when
  the text ends inside a literal. Every text is a sequence of such pieces, followed by at
  most one literal left open (\<open>text_is_pieces\<close>), and the code characters either close
  the bracket at some piece or never do (\<open>closes_or_never\<close>).
\<close>

theorem brackets_in_literals_ignored:
  assumes "\<forall>p\<in>set ps. well_formed p"
  shows "(closes_at_end 0 (Code CHR ''['' # ps) \<longrightarrow>
            findMatchingBracket (pre @ render (Code CHR ''['' # ps) @ post) (length pre)
              = Some (length pre + length (render ps))
          \<and> (\<forall>ws1 ws2 semi.
                (\<forall>c\<in>set ws1. is_space c) \<and> (\<forall>c\<in>set ws2. is_space c) \<and>
                (semi = '';'' \<or> semi = [] \<and> (post = [] \<or> hd post \<noteq> CHR '';'')) \<longrightarrow>
                extractPushCalls
                  ((pushToken @ ws1 @ render (Code CHR ''['' # ps) @ ws2 @ '')'' @ semi) @ post)
                  = (pushToken @ ws1 @ render (Code CHR ''['' # ps) @ ws2 @ '')'' @ semi)
                    # extractPushCalls post))
       \<and> (never_closes 0 (Code CHR ''['' # ps) \<longrightarrow>
            findMatchingBracket (pre @ render (Code CHR ''['' # ps)) (length pre) = None
          \<and> (\<forall>q body. is_quote q \<and> open_body q body \<longrightarrow>
                findMatchingBracket (pre @ render (Code CHR ''['' # ps) @ q # body) (length pre)
                  = None))"
proof -
  have wf: "\<forall>p\<in>set (Code CHR ''['' # ps). well_formed p"
    using assms by (simp add: is_quote_def dquote_def squote_def backtick_def)
  have 1: "findMatchingBracket (pre @ render (Code CHR ''['' # ps) @ post) (length pre)
      = Some (length pre + length (render ps))"
    if "closes_at_end 0 (Code CHR ''['' # ps)"
    using fmb_closes_at_end [OF wf that, of pre post] by (simp add: findMatchingBracket_def)
  have 2: "extractPushCalls
        ((pushToken @ ws1 @ render (Code CHR ''['' # ps) @ ws2 @ '')'' @ semi) @ post)
      = (pushToken @ ws1 @ render (Code CHR ''['' # ps) @ ws2 @ '')'' @ semi)
        # extractPushCalls post"
    if "closes_at_end 0 (Code CHR ''['' # ps)" "\<forall>c\<in>set ws1. is_space c" "\<forall>c\<in>set ws2. is_space c"
      "semi = '';'' \<or> semi = [] \<and> (post = [] \<or> hd post \<noteq> CHR '';'')"
    for ws1 ws2 semi
    using extract_call_then_rest [OF assms that] .
  have 3: "findMatchingBracket (pre @ render (Code CHR ''['' # ps)) (length pre) = None"
    if "never_closes 0 (Code CHR ''['' # ps)"
    using fmb_never_closes [OF wf that, of pre] by (simp add: findMatchingBracket_def)
  have 4: "findMatchingBracket (pre @ render (Code CHR ''['' # ps) @ q # body) (length pre) = None"
    if "never_closes 0 (Code CHR ''['' # ps)" "is_quote q" "open_body q body" for q body
    using fmb_never_closes_open [OF wf that, of pre] by (simp add: findMatchingBracket_def)
  from 1 2 3 4 show ?thesis by blast
qed

theorem brackets_in_literals_ignored_witness:
  \<open>findMatchingBracket ''x[1,"a]b[)"]yz'' 1 = Some 11
   \<and> extractPushCalls ''self.__next_f.push( [1,"a]b[)"] ); foo''
       = [''self.__next_f.push( [1,"a]b[)"] );'']
   \<and> findMatchingBracket ''x[[1,"a]b[)"]'' 1 = None
   \<and> findMatchingBracket ''x[1,"a]'' 1 = None\<close>
proof -
  let ?ps = "[Code CHR ''1'', Code CHR '','', Literal dquote ''a]b[)'', Code CHR '']'']"
  let ?qs = "[Code CHR ''['', Code CHR ''1'', Code CHR '','', Literal dquote ''a]b[)'', Code CHR '']'']"
  let ?rs = "[Code CHR ''1'', Code CHR '','']"
  have wp: "\<forall>p\<in>set ?ps. well_formed p"
    by (simp add: is_quote_def dquote_def squote_def backtick_def backslash_def)
  have wq: "\<forall>p\<in>set ?qs. well_formed p"
    by (simp add: is_quote_def dquote_def squote_def backtick_def backslash_def)
  have wr: "\<forall>p\<in>set ?rs. well_formed p"
    by (simp add: is_quote_def dquote_def squote_def backtick_def backslash_def)
  have cl: "closes_at_end 0 (Code CHR ''['' # ?ps)" by simp
  have nc: "never_closes 0 (Code CHR ''['' # ?qs)" by simp
  have nr: "never_closes 0 (Code CHR ''['' # ?rs)" by simp
  have ob: "is_quote dquote \<and> open_body dquote ''a]''"
    by (simp add: is_quote_def dquote_def backslash_def)
  have sp: "\<forall>c\<in>set '' ''. is_space c" by (simp add: is_space_def)
  have r: "extractPushCalls '' foo'' = []" by code_simp
  from brackets_in_literals_ignored [OF wp, of "''x''" "''yz''"] cl
  have a: \<open>findMatchingBracket ''x[1,"a]b[)"]yz'' 1 = Some 11\<close>
    by (simp add: dquote_def)
  from brackets_in_literals_ignored [OF wp, of "[]" "'' foo''"] cl sp
  have "extractPushCalls
          ((pushToken @ '' '' @ render (Code CHR ''['' # ?ps) @ '' '' @ '')'' @ '';'') @ '' foo'')
        = (pushToken @ '' '' @ render (Code CHR ''['' # ?ps) @ '' '' @ '')'' @ '';'')
          # extractPushCalls '' foo''"
    by blast
  then have b: \<open>extractPushCalls ''self.__next_f.push( [1,"a]b[)"] ); foo''
       = [''self.__next_f.push( [1,"a]b[)"] );'']\<close>
    by (simp add: r dquote_def pushToken_def)
  from brackets_in_literals_ignored [OF wq, of "''x''"] nc
  have c: \<open>findMatchingBracket ''x[[1,"a]b[)"]'' 1 = None\<close>
    by (simp add: dquote_def)
  from brackets_in_literals_ignored [OF wr, of "''x''"] nr ob
  have "findMatchingBracket (''x'' @ render (Code CHR ''['' # ?rs) @ dquote # ''a]'') (length ''x'') = None"
    by blast
  then have d: \<open>findMatchingBracket ''x[1,"a]'' 1 = None\<close>
    by (simp add: dquote_def)
  from a b c d show ?thesis by blast
qed

section \<open>Facts about the host's JSON text functions\<close>

text \<open>The parser reads a quoted string back to the string.\<close>

lemma hex_value_hex_digit: "d < 16 \<Longrightarrow> hex_value (hex_digit d) = Some d"
proof -
  assume "d < 16"
  then consider "d < 10" | "10 \<le> d" "d < 16" by linarith
  then show ?thesis
  proof cases
    case 1
    then show ?thesis by (simp add: hex_value_def hex_digit_def Let_def)
  next
    case 2
    then show ?thesis by (simp add: hex_value_def hex_digit_def Let_def)
  qed
qed

lemma parse_chars_escape:
  "parse_chars (escape_char c @ rest) acc = parse_chars rest (acc @ [c])"
proof -
  consider (b) "c = CHR 0x08" | (t) "c = CHR 0x09" | (n) "c = CHR 0x0A" | (f) "c = CHR 0x0C"
    | (r) "c = CHR 0x0D" | (q) "c = dquote" | (s) "c = backslash"
    | (u) "c \<noteq> CHR 0x08" "c \<noteq> CHR 0x09" "c \<noteq> CHR 0x0A" "c \<noteq> CHR 0x0C" "c \<noteq> CHR 0x0D"
          "c \<noteq> dquote" "c \<noteq> backslash" "(of_char c :: nat) < 32"
    | (o) "c \<noteq> CHR 0x08" "c \<noteq> CHR 0x09" "c \<noteq> CHR 0x0A" "c \<noteq> CHR 0x0C" "c \<noteq> CHR 0x0D"
          "c \<noteq> dquote" "c \<noteq> backslash" "\<not> (of_char c :: nat) < 32"
    by blast
  then show ?thesis
  proof cases
    case u
    have d: "(of_char c :: nat) div 16 < 16" "(of_char c :: nat) mod 16 < 16"
      using u(8) by simp_all
    have e: "escape_char c = [backslash, CHR ''u'', CHR ''0'', CHR ''0'',
        hex_digit (of_char c div 16), hex_digit (of_char c mod 16)]"
      using u by (simp add: escape_char_def)
    have z: "hex_value CHR ''0'' = Some 0" by (simp add: hex_value_def)
    show ?thesis
      unfolding e
      by (simp add: dquote_def backslash_def z hex_value_hex_digit [OF d(1)]
            hex_value_hex_digit [OF d(2)])
  qed (simp_all add: escape_char_def escape_value_def dquote_def backslash_def)
qed

lemma parse_chars_quoted:
  "parse_chars (concat (map escape_char s) @ dquote # rest) acc = Inr (acc @ s, rest)"
proof (induction s arbitrary: acc)
  case Nil
  then show ?case by simp
next
  case (Cons c s)
  have "parse_chars (concat (map escape_char (c # s)) @ dquote # rest) acc
      = parse_chars (escape_char c @ (concat (map escape_char s) @ dquote # rest)) acc"
    by simp
  also have "\<dots> = parse_chars (concat (map escape_char s) @ dquote # rest) (acc @ [c])"
    by (rule parse_chars_escape)
  also have "\<dots> = Inr ((acc @ [c]) @ s, rest)" by (rule Cons.IH)
  finally show ?case by simp
qed

text \<open>
  A number literal is made of number characters only, so that the longest run of number
  characters in front of a character that is not one is the literal itself.
\<close>

lemma number_char_simps:
  "is_number_char c \<Longrightarrow> \<not> is_json_ws c"
  "is_number_char c \<Longrightarrow> c \<noteq> CHR ''[''"
  "is_number_char c \<Longrightarrow> c \<noteq> CHR '']''"
  "is_number_char c \<Longrightarrow> c \<noteq> CHR ''{''"
  "is_number_char c \<Longrightarrow> c \<noteq> CHR ''}''"
  "is_number_char c \<Longrightarrow> c \<noteq> dquote"
  "is_number_char c \<Longrightarrow> c \<noteq> CHR ''n''"
  "is_number_char c \<Longrightarrow> c \<noteq> CHR ''t''"
  "is_number_char c \<Longrightarrow> c \<noteq> CHR ''f''"
  by (auto simp add: is_number_char_def is_digit_def is_json_ws_def dquote_def)

lemma number_literal_chars:
  assumes "number_literal t = Some mv"
  shows "t \<noteq> [] \<and> (\<forall>c\<in>set t. is_number_char c)"
proof -
  define negative where "negative = (t \<noteq> [] \<and> hd t = CHR ''-'')"
  define s1 where "s1 = (if negative then tl t else t)"
  define int_part where "int_part = takeWhile is_digit s1"
  define s2 where "s2 = dropWhile is_digit s1"
  define has_frac where "has_frac = (s2 \<noteq> [] \<and> hd s2 = CHR ''.'')"
  define frac_part where "frac_part = (if has_frac then takeWhile is_digit (tl s2) else [])"
  define s3 where "s3 = (if has_frac then dropWhile is_digit (tl s2) else s2)"
  define has_exp where "has_exp = (s3 \<noteq> [] \<and> (hd s3 = CHR ''e'' \<or> hd s3 = CHR ''E''))"
  define s4 where "s4 = (if has_exp then tl s3 else s3)"
  define s5 where
    "s5 = (if has_exp \<and> s4 \<noteq> [] \<and> (hd s4 = CHR ''-'' \<or> hd s4 = CHR ''+'') then tl s4 else s4)"
  define exp_part where "exp_part = (if has_exp then takeWhile is_digit s5 else [])"
  define s6 where "s6 = (if has_exp then dropWhile is_digit s5 else s5)"
  have ok: "int_part \<noteq> [] \<and> s6 = []"
    using assms
    unfolding number_literal_def Let_def
      negative_def [symmetric] s1_def [symmetric] int_part_def [symmetric] s2_def [symmetric]
      has_frac_def [symmetric] frac_part_def [symmetric] s3_def [symmetric]
      has_exp_def [symmetric] s4_def [symmetric] s5_def [symmetric]
      exp_part_def [symmetric] s6_def [symmetric]
    by (simp split: if_splits)
  have dig: "is_digit c \<Longrightarrow> is_number_char c" for c by (simp add: is_number_char_def)
  have c5: "\<forall>c\<in>set s5. is_number_char c"
  proof (cases has_exp)
    case True
    then have "dropWhile is_digit s5 = []" using ok by (simp add: s6_def)
    then have "\<forall>c\<in>set s5. is_digit c" by (simp add: dropWhile_eq_Nil_conv)
    then show ?thesis using dig by blast
  next
    case False
    then show ?thesis using ok by (simp add: s6_def)
  qed
  have c4: "\<forall>c\<in>set s4. is_number_char c"
  proof (cases "has_exp \<and> s4 \<noteq> [] \<and> (hd s4 = CHR ''-'' \<or> hd s4 = CHR ''+'')")
    case True
    then have "s4 = hd s4 # s5" by (cases s4) (simp_all add: s5_def)
    moreover have "is_number_char (hd s4)" using True by (auto simp add: is_number_char_def)
    ultimately show ?thesis using c5 by (metis set_ConsD)
  next
    case False
    then have "s4 = s5" unfolding s5_def by auto
    then show ?thesis using c5 by simp
  qed
  have c3: "\<forall>c\<in>set s3. is_number_char c"
  proof (cases has_exp)
    case True
    then have "s3 = hd s3 # s4" by (cases s3) (simp_all add: s4_def has_exp_def)
    moreover have "is_number_char (hd s3)"
      using True by (auto simp add: is_number_char_def has_exp_def)
    ultimately show ?thesis using c4 by (metis set_ConsD)
  next
    case False
    then have "s3 = s4" by (simp add: s4_def)
    then show ?thesis using c4 by simp
  qed
  have c2: "\<forall>c\<in>set s2. is_number_char c"
  proof (cases has_frac)
    case True
    then have "s2 = hd s2 # takeWhile is_digit (tl s2) @ s3"
      by (cases s2) (simp_all add: s3_def has_frac_def)
    moreover have "is_number_char (hd s2)"
      using True by (simp add: is_number_char_def has_frac_def)
    moreover have "\<forall>c\<in>set (takeWhile is_digit (tl s2)). is_number_char c"
      using dig by (metis set_takeWhileD)
    ultimately show ?thesis using c3
      by (metis Un_iff set_ConsD set_append)
  next
    case False
    then have "s2 = s3" by (simp add: s3_def)
    then show ?thesis using c3 by simp
  qed
  have e1: "s1 = int_part @ s2" by (simp add: int_part_def s2_def)
  have "\<forall>c\<in>set int_part. is_number_char c"
    unfolding int_part_def using dig by (metis set_takeWhileD)
  then have c1: "\<forall>c\<in>set s1. is_number_char c" using c2 e1 by auto
  have n1: "s1 \<noteq> []" using ok e1 by simp
  show ?thesis
  proof (cases negative)
    case True
    then have "t = hd t # s1" by (cases t) (simp_all add: s1_def negative_def)
    moreover have "is_number_char (hd t)"
      using True by (simp add: is_number_char_def negative_def)
    ultimately show ?thesis using c1 by (metis list.distinct(1) set_ConsD)
  next
    case False
    then have "t = s1" by (simp add: s1_def)
    then show ?thesis using c1 n1 by simp
  qed
qed

lemma number_token:
  assumes "\<forall>c\<in>set t. is_number_char c" "rest = [] \<or> \<not> is_number_char (hd rest)"
  shows "takeWhile is_number_char (t @ rest) = t" "dropWhile is_number_char (t @ rest) = rest"
proof -
  have r: "takeWhile is_number_char rest = []" "dropWhile is_number_char rest = rest"
    using assms(2) by (cases rest; simp)+
  show "takeWhile is_number_char (t @ rest) = t" using assms(1) r by simp
  show "dropWhile is_number_char (t @ rest) = rest" using assms(1) r by simp
qed

lemma insert_index_last:
  assumes "\<forall>kv\<in>set obj. is_array_index (fst kv) \<and> digits_value (fst kv) < digits_value k"
  shows "insert_index k v obj = obj @ [(k, v)]"
  using assms by (induction obj) simp_all

lemma define_property_last:
  assumes "host_keys (map fst obj @ [k])"
  shows "define_property obj k v = obj @ [(k, v)]"
proof -
  have d: "k \<notin> fst ` set obj" and s: "\<forall>a\<in>set obj. key_before (fst a) k"
    using assms by (auto simp add: host_keys_def sorted_wrt_append)
  show ?thesis
  proof (cases "is_array_index k")
    case True
    then have "\<forall>kv\<in>set obj. is_array_index (fst kv) \<and> digits_value (fst kv) < digits_value k"
      using s by (simp add: key_before_def)
    then show ?thesis using d True by (simp add: define_property_def insert_index_last)
  next
    case False
    then show ?thesis using d by (simp add: define_property_def)
  qed
qed

text \<open>
  The parser reads the serialization of a finite value of the host back to the value,
  whatever white space comes before it and whatever comes after it, a number character
  apart, given fuel for the nesting of the value.
\<close>

lemma json_ws_simps [simp]:
  "is_json_ws newline" "is_json_ws CHR '' ''"
  "\<not> is_json_ws CHR '',''" "\<not> is_json_ws CHR '']''" "\<not> is_json_ws CHR ''}''"
  "\<not> is_json_ws CHR ''[''" "\<not> is_json_ws CHR ''{''" "\<not> is_json_ws CHR '':''"
  "\<not> is_json_ws dquote"
  by (simp_all add: is_json_ws_def newline_def dquote_def)

lemma not_number_char_simps [simp]:
  "\<not> is_number_char newline" "\<not> is_number_char CHR '',''"
  by (simp_all add: is_number_char_def is_digit_def newline_def)

lemma drop_json_ws:
  "\<forall>c\<in>set w. is_json_ws c \<Longrightarrow> \<not> is_json_ws c \<Longrightarrow>
   dropWhile is_json_ws (w @ c # cs) = c # cs"
  by (simp add: dropWhile_append2)

lemma host_keys_prefix: "host_keys (ks @ ks') \<Longrightarrow> host_keys ks"
  by (simp add: host_keys_def sorted_wrt_append)

lemma serialize_start:
  assumes "host_value N v"
  shows "\<exists>c cs. SerializeJSONProperty N ind v = c # cs \<and> \<not> is_json_ws c \<and> c \<noteq> CHR '']''"
proof (cases v)
  case (JNumber x)
  then obtain mv where "number_literal (Number_toString N x) = Some mv"
    using assms by (auto simp add: number_round_trips_def split: option.splits)
  from number_literal_chars [OF this]
  obtain c cs where "Number_toString N x = c # cs" "is_number_char c"
    by (cases "Number_toString N x") auto
  then show ?thesis using JNumber by (simp add: number_char_simps)
qed (simp_all add: QuoteJSONString_def is_json_ws_def dquote_def Let_def)

lemma parse_elements_round_trip:
  assumes "\<And>x n w rest. x \<in> set xs \<Longrightarrow> fuel_for x \<le> n \<Longrightarrow> \<forall>c\<in>set w. is_json_ws c \<Longrightarrow>
             rest = [] \<or> \<not> is_number_char (hd rest) \<Longrightarrow>
             parse_value N n (w @ SerializeJSONProperty N ind' x @ rest) = Inr (x, rest)"
    and "xs \<noteq> []"
    and "sum_list (map (\<lambda>x. Suc (fuel_for x)) xs) \<le> n"
    and "\<forall>c\<in>set w. is_json_ws c"
    and "\<forall>c\<in>set ind. is_json_ws c"
    and "\<forall>c\<in>set ind'. is_json_ws c"
  shows "parse_elements N n
           (w @ join (CHR '','' # newline # ind') (map (SerializeJSONProperty N ind') xs)
              @ newline # ind @ CHR '']'' # rest) acc
         = Inr (JArray (acc @ xs), rest)"
  using assms
proof (induction xs arbitrary: n w acc)
  case Nil
  then show ?case by simp
next
  case (Cons x xs)
  from Cons.prems(3) obtain n' where n: "n = Suc n'" and fx: "fuel_for x \<le> n'"
    and fxs: "sum_list (map (\<lambda>x. Suc (fuel_for x)) xs) \<le> n'"
    by (cases n) auto
  define tail where "tail = newline # ind @ CHR '']'' # rest"
  have dt: "dropWhile is_json_ws tail = CHR '']'' # rest"
    unfolding tail_def using Cons.prems(5) drop_json_ws [of "newline # ind" "CHR '']''" rest] by simp
  show ?case
  proof (cases xs)
    case Nil
    have pv: "parse_value N n' (w @ SerializeJSONProperty N ind' x @ tail) = Inr (x, tail)"
      using Cons.prems(1) [of x n' w tail] fx Cons.prems(4) by (simp add: tail_def)
    have "parse_elements N (Suc n') (w @ SerializeJSONProperty N ind' x @ tail) acc
        = Inr (JArray (acc @ [x]), rest)"
      by (simp add: pv dt)
    then show ?thesis using Nil n by (simp add: tail_def)
  next
    case (Cons y ys)
    define J where "J = join (CHR '','' # newline # ind') (map (SerializeJSONProperty N ind') xs) @ tail"
    have pv: "parse_value N n' (w @ SerializeJSONProperty N ind' x @ CHR '','' # newline # ind' @ J)
        = Inr (x, CHR '','' # newline # ind' @ J)"
      using Cons.prems(1) [of x n' w "CHR '','' # newline # ind' @ J"] fx Cons.prems(4) by simp
    have w': "\<forall>c\<in>set (newline # ind'). is_json_ws c" using Cons.prems(6) by simp
    have "parse_elements N n'
           ((newline # ind') @ join (CHR '','' # newline # ind') (map (SerializeJSONProperty N ind') xs)
              @ newline # ind @ CHR '']'' # rest) (acc @ [x])
         = Inr (JArray ((acc @ [x]) @ xs), rest)"
    proof (rule Cons.IH)
      show "xs \<noteq> []" using Cons by simp
      show "sum_list (map (\<lambda>x. Suc (fuel_for x)) xs) \<le> n'" by (rule fxs)
      show "\<forall>c\<in>set (newline # ind'). is_json_ws c" by (rule w')
      show "\<forall>c\<in>set ind. is_json_ws c" by (rule Cons.prems(5))
      show "\<forall>c\<in>set ind'. is_json_ws c" by (rule Cons.prems(6))
    next
      fix x' n w rest
      assume "x' \<in> set xs" "fuel_for x' \<le> n" "\<forall>c\<in>set w. is_json_ws c"
        "rest = [] \<or> \<not> is_number_char (hd rest)"
      then show "parse_value N n (w @ SerializeJSONProperty N ind' x' @ rest) = Inr (x', rest)"
        using Cons.prems(1) [of x' n w rest] by simp
    qed
    then have pe: "parse_elements N n' (newline # ind' @ J) (acc @ [x]) = Inr (JArray (acc @ x # xs), rest)"
      by (simp add: J_def tail_def)
    have "parse_elements N (Suc n') (w @ SerializeJSONProperty N ind' x @ CHR '','' # newline # ind' @ J) acc
        = Inr (JArray (acc @ x # xs), rest)"
      by (simp add: pv pe)
    then show ?thesis using Cons n by (simp add: J_def tail_def)
  qed
qed

lemma parse_members_round_trip:
  assumes "\<And>kv n w rest. kv \<in> set kvs \<Longrightarrow> fuel_for (snd kv) \<le> n \<Longrightarrow> \<forall>c\<in>set w. is_json_ws c \<Longrightarrow>
             rest = [] \<or> \<not> is_number_char (hd rest) \<Longrightarrow>
             parse_value N n (w @ SerializeJSONProperty N ind' (snd kv) @ rest) = Inr (snd kv, rest)"
    and "kvs \<noteq> []"
    and "sum_list (map (\<lambda>kv. Suc (fuel_for (snd kv))) kvs) \<le> n"
    and "\<forall>c\<in>set w. is_json_ws c"
    and "\<forall>c\<in>set ind. is_json_ws c"
    and "\<forall>c\<in>set ind'. is_json_ws c"
    and "host_keys (map fst (acc @ kvs))"
  shows "parse_members N n
           (w @ join (CHR '','' # newline # ind')
                  (map (\<lambda>kv. QuoteJSONString (fst kv) @ '': ''
                               @ SerializeJSONProperty N ind' (snd kv)) kvs)
              @ newline # ind @ CHR ''}'' # rest) acc
         = Inr (JObject (acc @ kvs), rest)"
  using assms
proof (induction kvs arbitrary: n w acc)
  case Nil
  then show ?case by simp
next
  case (Cons kv kvs)
  obtain k v where kv: "kv = (k, v)" by (cases kv)
  from Cons.prems(3) obtain n' where n: "n = Suc n'" and fx: "fuel_for v \<le> n'"
    and fxs: "sum_list (map (\<lambda>kv. Suc (fuel_for (snd kv))) kvs) \<le> n'"
    by (cases n) (auto simp add: kv)
  define tail where "tail = newline # ind @ CHR ''}'' # rest"
  have dt: "dropWhile is_json_ws tail = CHR ''}'' # rest"
    unfolding tail_def using Cons.prems(5) drop_json_ws [of "newline # ind" "CHR ''}''" rest] by simp
  have "host_keys (map fst acc @ [k])"
    using Cons.prems(7) host_keys_prefix [of "map fst acc @ [k]" "map fst kvs"] by (simp add: kv)
  then have dp: "define_property acc k v = acc @ [(k, v)]" by (rule define_property_last)
  have dw: "dropWhile is_json_ws (w @ dquote # s) = dquote # s" for s
    using Cons.prems(4) by (simp add: drop_json_ws)
  have pv: "parse_value N n' (CHR '' '' # SerializeJSONProperty N ind' v @ r) = Inr (v, r)"
    if "r = [] \<or> \<not> is_number_char (hd r)" for r
    using Cons.prems(1) [of kv n' "'' ''" r] fx that by (simp add: kv)
  have step: "parse_members N (Suc n')
        (w @ dquote # concat (map escape_char k) @ dquote # CHR '':'' # CHR '' ''
            # SerializeJSONProperty N ind' v @ r) acc
      = (case dropWhile is_json_ws r of
           [] \<Rightarrow> Inl ''Unexpected end of JSON input''
         | c2 # cs2 \<Rightarrow>
             if c2 = CHR '','' then parse_members N n' cs2 (define_property acc k v)
             else if c2 = CHR ''}'' then Inr (JObject (define_property acc k v), cs2)
             else Inl ''Unexpected token in JSON'')"
    if "r = [] \<or> \<not> is_number_char (hd r)" for r
    by (simp add: dw parse_chars_quoted pv [OF that])
  show ?case
  proof (cases kvs)
    case Nil
    have "parse_members N (Suc n')
        (w @ dquote # concat (map escape_char k) @ dquote # CHR '':'' # CHR '' ''
            # SerializeJSONProperty N ind' v @ tail) acc
      = Inr (JObject (acc @ [(k, v)]), rest)"
      by (subst step) (simp_all add: dt dp, simp add: tail_def)
    then show ?thesis using Nil n by (simp add: tail_def kv QuoteJSONString_def)
  next
    case (Cons kv' kvs')
    define J where "J = join (CHR '','' # newline # ind')
        (map (\<lambda>kv. QuoteJSONString (fst kv) @ '': '' @ SerializeJSONProperty N ind' (snd kv)) kvs) @ tail"
    have w': "\<forall>c\<in>set (newline # ind'). is_json_ws c" using Cons.prems(6) by simp
    have "parse_members N n'
           ((newline # ind') @ join (CHR '','' # newline # ind')
                  (map (\<lambda>kv. QuoteJSONString (fst kv) @ '': ''
                               @ SerializeJSONProperty N ind' (snd kv)) kvs)
              @ newline # ind @ CHR ''}'' # rest) (acc @ [(k, v)])
         = Inr (JObject ((acc @ [(k, v)]) @ kvs), rest)"
    proof (rule Cons.IH)
      show "kvs \<noteq> []" using Cons by simp
      show "sum_list (map (\<lambda>kv. Suc (fuel_for (snd kv))) kvs) \<le> n'" by (rule fxs)
      show "\<forall>c\<in>set (newline # ind'). is_json_ws c" by (rule w')
      show "\<forall>c\<in>set ind. is_json_ws c" by (rule Cons.prems(5))
      show "\<forall>c\<in>set ind'. is_json_ws c" by (rule Cons.prems(6))
      show "host_keys (map fst ((acc @ [(k, v)]) @ kvs))" using Cons.prems(7) by (simp add: kv)
    next
      fix x' n w rest
      assume "x' \<in> set kvs" "fuel_for (snd x') \<le> n" "\<forall>c\<in>set w. is_json_ws c"
        "rest = [] \<or> \<not> is_number_char (hd rest)"
      then show "parse_value N n (w @ SerializeJSONProperty N ind' (snd x') @ rest) = Inr (snd x', rest)"
        using Cons.prems(1) [of x' n w rest] by simp
    qed
    then have pe: "parse_members N n' (newline # ind' @ J) (acc @ [(k, v)])
        = Inr (JObject (acc @ (k, v) # kvs), rest)"
      by (simp add: J_def tail_def)
    have "parse_members N (Suc n')
        (w @ dquote # concat (map escape_char k) @ dquote # CHR '':'' # CHR '' ''
            # SerializeJSONProperty N ind' v @ CHR '','' # newline # ind' @ J) acc
      = Inr (JObject (acc @ (k, v) # kvs), rest)"
      by (subst step) (simp_all add: pe dp)
    then show ?thesis using Cons n by (simp add: J_def tail_def kv QuoteJSONString_def)
  qed
qed

lemma parse_value_round_trip:
  "host_value N v \<Longrightarrow> finite_value v \<Longrightarrow> fuel_for v \<le> n \<Longrightarrow> \<forall>c\<in>set w. is_json_ws c \<Longrightarrow>
   \<forall>c\<in>set ind. is_json_ws c \<Longrightarrow> rest = [] \<or> \<not> is_number_char (hd rest) \<Longrightarrow>
   parse_value N n (w @ SerializeJSONProperty N ind v @ rest) = Inr (v, rest)"
proof (induction v arbitrary: n w ind rest rule: finite_value.induct)
  case 1
  then obtain n' where "n = Suc n'" by (cases n) auto
  then show ?case using 1(4) by (simp add: dropWhile_append2 dquote_def is_json_ws_def)
next
  case (2 b)
  then obtain n' where "n = Suc n'" by (cases n) auto
  then show ?case using 2(4) by (simp add: dropWhile_append2 dquote_def is_json_ws_def)
next
  case (3 x)
  then obtain n' where n: "n = Suc n'" by (cases n) auto
  from 3(1) obtain mv where mv: "number_literal (Number_toString N x) = Some mv"
    "Number_round N mv = Some x"
    by (auto simp add: number_round_trips_def split: option.splits)
  from number_literal_chars [OF mv(1)]
  obtain c cs where t: "Number_toString N x = c # cs" and cc: "\<forall>c\<in>set (c # cs). is_number_char c"
    by (cases "Number_toString N x") auto
  have c: "is_number_char c" using cc by simp
  have ne: "c \<noteq> CHR ''[''" "c \<noteq> CHR ''{''" "c \<noteq> dquote"
    "CHR ''n'' \<noteq> c" "CHR ''t'' \<noteq> c" "CHR ''f'' \<noteq> c"
    using c by (auto simp add: is_number_char_def is_digit_def dquote_def)
  have tk: "takeWhile is_number_char (cs @ rest) = cs"
    "dropWhile is_number_char (cs @ rest) = rest"
    using number_token [of cs rest] cc 3(6) by simp_all
  have ml: "number_literal (c # cs) = Some mv" using mv(1) t by simp
  have dw: "dropWhile is_json_ws (w @ c # cs @ rest) = c # cs @ rest"
    using 3(4) c by (simp add: drop_json_ws number_char_simps)
  have "parse_value N (Suc n') (w @ c # cs @ rest) = Inr (JNumber x, rest)"
    by (simp add: dw ne tk ml mv(2) c)
  then show ?case by (simp add: n t)
next
  case (4 positive)
  then show ?case by simp
next
  case (5 s)
  then obtain n' where "n = Suc n'" by (cases n) auto
  moreover have "dquote \<noteq> CHR ''[''" "dquote \<noteq> CHR ''{''" by (simp_all add: dquote_def)
  ultimately show ?case using 5(4)
    by (simp add: QuoteJSONString_def drop_json_ws parse_chars_quoted)
next
  case (6 xs)
  then obtain n' where n: "n = Suc n'" and f: "sum_list (map (\<lambda>x. Suc (fuel_for x)) xs) \<le> n'"
    by (cases n) auto
  show ?case
  proof (cases "xs = []")
    case True
    then show ?thesis using n 6(5) by (simp add: drop_json_ws)
  next
    case False
    define ind' where "ind' = ind @ ''  ''"
    have wi: "\<forall>c\<in>set ind'. is_json_ws c" using 6(6) by (simp add: ind'_def)
    define J where "J = join (CHR '','' # newline # ind') (map (SerializeJSONProperty N ind') xs)
        @ newline # ind @ CHR '']'' # rest"
    have hv: "host_value N (hd xs)" using 6(2) False by (cases xs) simp_all
    from serialize_start [OF hv, of ind']
    obtain c cs where st: "SerializeJSONProperty N ind' (hd xs) = c # cs" "\<not> is_json_ws c" "c \<noteq> CHR '']''"
      by blast
    obtain cs' where J: "J = c # cs'"
      using st(1) False by (cases xs; cases "tl xs") (auto simp add: J_def)
    have pe: "parse_elements N n' ([] @ J) [] = Inr (JArray ([] @ xs), rest)"
      unfolding J_def
    proof (rule parse_elements_round_trip)
      show "xs \<noteq> []" by (rule False)
      show "sum_list (map (\<lambda>x. Suc (fuel_for x)) xs) \<le> n'" by (rule f)
      show "\<forall>c\<in>set []. is_json_ws c" by simp
      show "\<forall>c\<in>set ind. is_json_ws c" by (rule 6(6))
      show "\<forall>c\<in>set ind'. is_json_ws c" by (rule wi)
    next
      fix x n w rest
      assume "x \<in> set xs" "fuel_for x \<le> n" "\<forall>c\<in>set w. is_json_ws c"
        "rest = [] \<or> \<not> is_number_char (hd rest)"
      then show "parse_value N n (w @ SerializeJSONProperty N ind' x @ rest) = Inr (x, rest)"
        using 6(1) [of x n w ind' rest] 6(2) 6(3) wi by simp
    qed
    have d1: "dropWhile is_json_ws (w @ CHR ''['' # newline # ind' @ J) = CHR ''['' # newline # ind' @ J"
      using 6(5) by (simp add: drop_json_ws)
    have d2: "dropWhile is_json_ws (ind' @ J) = c # cs'"
      using wi st(2) drop_json_ws [of ind' c cs'] by (simp add: J)
    have "parse_value N (Suc n') (w @ CHR ''['' # newline # ind' @ J) = Inr (JArray xs, rest)"
      using pe [unfolded J] st(3) by (simp add: d1 d2)
    then show ?thesis using False n by (simp add: Let_def J_def ind'_def)
  qed
next
  case (7 kvs)
  then obtain n' where n: "n = Suc n'"
    and f: "sum_list (map (\<lambda>kv. Suc (fuel_for (snd kv))) kvs) \<le> n'"
    by (cases n) auto
  show ?case
  proof (cases "kvs = []")
    case True
    then show ?thesis using n 7(5) by (simp add: drop_json_ws)
  next
    case False
    define ind' where "ind' = ind @ ''  ''"
    have wi: "\<forall>c\<in>set ind'. is_json_ws c" using 7(6) by (simp add: ind'_def)
    define J where "J = join (CHR '','' # newline # ind')
        (map (\<lambda>kv. QuoteJSONString (fst kv) @ '': '' @ SerializeJSONProperty N ind' (snd kv)) kvs)
        @ newline # ind @ CHR ''}'' # rest"
    obtain cs' where J: "J = dquote # cs'"
      using False by (cases kvs; cases "tl kvs") (auto simp add: J_def QuoteJSONString_def)
    have pe: "parse_members N n' ([] @ J) [] = Inr (JObject ([] @ kvs), rest)"
      unfolding J_def
    proof (rule parse_members_round_trip)
      show "kvs \<noteq> []" by (rule False)
      show "sum_list (map (\<lambda>kv. Suc (fuel_for (snd kv))) kvs) \<le> n'" by (rule f)
      show "\<forall>c\<in>set []. is_json_ws c" by simp
      show "\<forall>c\<in>set ind. is_json_ws c" by (rule 7(6))
      show "\<forall>c\<in>set ind'. is_json_ws c" by (rule wi)
      show "host_keys (map fst ([] @ kvs))" using 7(2) by simp
    next
      fix kv n w rest
      assume "kv \<in> set kvs" "fuel_for (snd kv) \<le> n" "\<forall>c\<in>set w. is_json_ws c"
        "rest = [] \<or> \<not> is_number_char (hd rest)"
      then show "parse_value N n (w @ SerializeJSONProperty N ind' (snd kv) @ rest) = Inr (snd kv, rest)"
        using 7(1) [of kv n w ind' rest] 7(2) 7(3) wi by simp
    qed
    have d1: "dropWhile is_json_ws (w @ CHR ''{'' # newline # ind' @ J) = CHR ''{'' # newline # ind' @ J"
      using 7(5) by (simp add: drop_json_ws)
    have d2: "dropWhile is_json_ws (ind' @ J) = dquote # cs'"
      using wi drop_json_ws [of ind' dquote cs'] by (simp add: J)
    have "parse_value N (Suc n') (w @ CHR ''{'' # newline # ind' @ J) = Inr (JObject kvs, rest)"
      using pe [unfolded J] by (simp add: d1 d2 dquote_def)
    then show ?thesis using False n by (simp add: Let_def J_def ind'_def)
  qed
qed

text \<open>
  The length of the serialization bounds the fuel; and the serialization of a value is
  that of the value with \<open>null\<close> for each infinite number, which is finite. So the parser
  reads the text of any value of the host back to that value with \<open>null\<close> for each
  infinite number.
\<close>

lemma join_length:
  assumes "\<forall>x\<in>set xs. f x \<le> Suc (length (g x))" "2 \<le> length sep"
  shows "sum_list (map (\<lambda>x. Suc (f x)) xs) \<le> 2 + length (join sep (map g xs))"
  using assms
proof (induction xs)
  case Nil
  then show ?case by simp
next
  case (Cons x xs)
  show ?case
  proof (cases xs)
    case Nil
    then show ?thesis using Cons.prems by simp
  next
    case (Cons y ys)
    then show ?thesis using Cons.IH Cons.prems by simp
  qed
qed

lemma fuel_for_le_length: "fuel_for v \<le> Suc (length (SerializeJSONProperty N ind v))"
proof (induction v arbitrary: ind rule: finite_value.induct)
  case (6 xs)
  show ?case
  proof (cases "xs = []")
    case True
    then show ?thesis by simp
  next
    case False
    have "sum_list (map (\<lambda>x. Suc (fuel_for x)) xs)
        \<le> 2 + length (join (CHR '','' # newline # ind @ ''  '')
                          (map (SerializeJSONProperty N (ind @ ''  '')) xs))"
      by (rule join_length) (simp_all add: 6)
    then show ?thesis using False by (simp add: Let_def)
  qed
next
  case (7 kvs)
  show ?case
  proof (cases "kvs = []")
    case True
    then show ?thesis by simp
  next
    case False
    have "\<forall>kv\<in>set kvs. fuel_for (snd kv)
        \<le> Suc (length (QuoteJSONString (fst kv) @ '': ''
                        @ SerializeJSONProperty N (ind @ ''  '') (snd kv)))"
    proof
      fix kv assume "kv \<in> set kvs"
      from 7 [OF this, of "ind @ ''  ''"] show "fuel_for (snd kv)
        \<le> Suc (length (QuoteJSONString (fst kv) @ '': ''
                        @ SerializeJSONProperty N (ind @ ''  '') (snd kv)))"
        by simp
    qed
    then have "sum_list (map (\<lambda>kv. Suc (fuel_for (snd kv))) kvs)
        \<le> 2 + length (join (CHR '','' # newline # ind @ ''  '')
                          (map (\<lambda>kv. QuoteJSONString (fst kv) @ '': ''
                                       @ SerializeJSONProperty N (ind @ ''  '') (snd kv)) kvs))"
      by (rule join_length) simp
    then show ?thesis using False by (simp add: Let_def)
  qed
qed simp_all

lemma JSON_parse_stringify_finite:
  assumes "host_value N v" "finite_value v"
  shows "JSON_parse_text N (JSON_stringify_indented N v) = Inr v"
proof -
  have "parse_value N (Suc (length (SerializeJSONProperty N [] v)))
          ([] @ SerializeJSONProperty N [] v @ []) = Inr (v, [])"
    using assms fuel_for_le_length [of v N "[]"]
    by (intro parse_value_round_trip) simp_all
  then show ?thesis by (simp add: JSON_parse_text_def JSON_stringify_indented_def)
qed

lemma map_fixed: "(map f xs = xs) = (\<forall>x\<in>set xs. f x = x)"
  by (induction xs) auto

lemma serialize_nullify:
  "SerializeJSONProperty N ind (nullify v) = SerializeJSONProperty N ind v"
proof (induction v arbitrary: ind rule: finite_value.induct)
  case (6 xs)
  have "map (SerializeJSONProperty N (ind @ ''  '')) (map nullify xs)
      = map (SerializeJSONProperty N (ind @ ''  '')) xs"
    by (simp add: 6)
  then show ?case by (simp add: Let_def del: map_map)
next
  case (7 kvs)
  have "map (\<lambda>kv. QuoteJSONString (fst kv) @ '': ''
                   @ SerializeJSONProperty N (ind @ ''  '') (snd kv))
          (map (\<lambda>kv. (fst kv, nullify (snd kv))) kvs)
      = map (\<lambda>kv. QuoteJSONString (fst kv) @ '': ''
                   @ SerializeJSONProperty N (ind @ ''  '') (snd kv)) kvs"
    by (simp add: 7)
  then show ?case by (simp add: Let_def del: map_map)
qed simp_all

lemma host_value_nullify: "host_value N v \<Longrightarrow> host_value N (nullify v)"
  by (induction v rule: finite_value.induct) (simp_all add: comp_def)

lemma finite_value_nullify: "finite_value (nullify v)"
  by (induction v rule: finite_value.induct) simp_all

lemma nullify_fixed: "(nullify v = v) = finite_value v"
proof (induction v rule: finite_value.induct)
  case (6 xs)
  then show ?case by (simp add: map_fixed)
next
  case (7 kvs)
  have e: "((fst kv, nullify (snd kv)) = kv) = (nullify (snd kv) = snd kv)" for kv
    by (cases kv) simp
  have "(\<forall>kv\<in>set kvs. (fst kv, nullify (snd kv)) = kv) = (\<forall>kv\<in>set kvs. finite_value (snd kv))"
    unfolding e using 7 by blast
  then show ?case by (simp add: map_fixed)
qed simp_all

lemma JSON_parse_stringify:
  assumes "host_value N v"
  shows "JSON_parse_text N (JSON_stringify_indented N v) = Inr (nullify v)"
proof -
  have "JSON_stringify_indented N v = JSON_stringify_indented N (nullify v)"
    by (simp add: JSON_stringify_indented_def serialize_nullify)
  then show ?thesis
    using JSON_parse_stringify_finite [OF host_value_nullify [OF assms] finite_value_nullify]
    by simp
qed

text \<open>A node is determined by its value: no two nodes have the same.\<close>

lemma component_value_inj:
  "component_value a = component_value b \<Longrightarrow> a = b"
  "child_value c = child_value d \<Longrightarrow> c = d"
proof (induction a and c arbitrary: b and d)
  case (ParsedComponent t cv p ch)
  obtain t' cv' p' ch' where b: "b = ParsedComponent t' cv' p' ch'" by (cases b)
  have "ch = ch'"
  proof (cases ch)
    case None
    then show ?thesis using ParsedComponent.prems b by (cases ch') simp_all
  next
    case (Some cs)
    then obtain cs' where s': "ch' = Some cs'" "map child_value cs = map child_value cs'"
      using ParsedComponent.prems b by (cases ch') simp_all
    have "\<And>x d. x \<in> set cs \<Longrightarrow> child_value x = child_value d \<Longrightarrow> x = d"
      using ParsedComponent.IH Some by simp
    with s'(2) have "cs = cs'"
    proof (induction cs arbitrary: cs')
      case Nil
      then show ?case by simp
    next
      case (Cons x xs)
      then show ?case by (cases cs') auto
    qed
    then show ?thesis using Some s' by simp
  qed
  then show ?case using ParsedComponent.prems b by (simp split: option.splits)
next
  case (ChildComponent n)
  then show ?case by (cases d; cases n) simp_all
next
  case (ChildText s)
  then show ?case
  proof (cases d)
    case (ChildComponent n)
    then show ?thesis using ChildText by (cases n) simp_all
  qed simp
qed

lemma formatAsReadableJson_decoded:
  assumes "host_value N (JArray (map component_value components'))"
  shows "JSON_parse_text N (formatAsReadableJson N components')
         = Inr (nullify (JArray (map component_value components')))"
  unfolding formatAsReadableJson_def using assms by (rule JSON_parse_stringify)


text \<open>The text of a small node sequence, and the parser on two texts of its own.\<close>

lemma formatAsReadableJson_sample:
  \<open>formatAsReadableJson N [ParsedComponent ''text'' (JString ''bye'') [(''n'', JArray [JNull, JBool True])] None]
   = ''['' @ [newline]
     @ ''  {'' @ [newline]
     @ ''    "type": "text",'' @ [newline]
     @ ''    "component": "bye",'' @ [newline]
     @ ''    "props": {'' @ [newline]
     @ ''      "n": ['' @ [newline]
     @ ''        null,'' @ [newline]
     @ ''        true'' @ [newline]
     @ ''      ]'' @ [newline]
     @ ''    }'' @ [newline]
     @ ''  }'' @ [newline]
     @ '']''\<close>
  by (simp add: formatAsReadableJson_def JSON_stringify_indented_def Let_def QuoteJSONString_def
        escape_char_def dquote_def backslash_def)

lemma JSON_parse_text_sample:
  \<open>JSON_parse_text sample_numerics ''{"b": [1, -20], "1": "x", "b": null}''
   = Inr (JObject [(''1'', JString ''x''), (''b'', JNull)])\<close>
  \<open>JSON_parse_text sample_numerics ''[1,]'' = Inl ''Unexpected token in JSON''\<close>
  by code_simp+

text \<open>
  A literal whose value the host's rounding has no double for, as it is for \<open>1e999\<close>, is
  read as an infinite number.
\<close>

lemma number_literal_1e999: "number_literal ''1e999'' = Some (10 ^ 999)"
  by (simp add: number_literal_def Let_def is_digit_def digits_value_def del: power_numeral)

lemma JSON_parse_text_overflow:
  assumes "Number_round N (10 ^ 999) = None"
  shows "JSON_parse_text N ''1e999'' = Inr (JInfinity True)"
proof -
  have t: "takeWhile is_number_char ''1e999'' = ''1e999''" "dropWhile is_number_char ''1e999'' = []"
    by (simp_all add: is_number_char_def is_digit_def)
  have w: "dropWhile is_json_ws ''1e999'' = ''1e999''" by (simp add: is_json_ws_def)
  have "parse_value N (Suc (length ''1e999'')) ''1e999'' = Inr (JInfinity True, [])"
    unfolding parse_value.simps w using t number_literal_1e999 assms
    by (simp add: dquote_def del: power_numeral)
  then show ?thesis by (simp add: JSON_parse_text_def)
qed

text \<open>The sample's numbers and keys, evaluated.\<close>

lemma show_int_rat_42: "show_int_rat 42 = ''42''"
  by code_simp

lemma show_int_rat_minus_3: "show_int_rat (- 3) = ''-3''"
  by code_simp

lemma number_literal_42: "number_literal ''42'' = Some 42"
  by (simp add: number_literal_def Let_def is_digit_def digits_value_def)

lemma number_literal_minus_3: "number_literal ''-3'' = Some (- 3)"
  by (simp add: number_literal_def Let_def is_digit_def digits_value_def)

lemma sample_keys_index: "is_array_index ''1''" "\<not> is_array_index ''className''" "\<not> is_array_index ''style''"
  "\<not> is_array_index ''hidden''" "\<not> is_array_index ''data''"
  "\<not> is_array_index ''type''" "\<not> is_array_index ''component''"
    "\<not> is_array_index ''props''" "\<not> is_array_index ''children''"
  by (simp_all add: is_array_index_def is_digit_def digits_value_def)

section \<open>JSON formatter: the round trip\<close>

text \<open>
  Claim C8, as stated, fails: decoding the output of the JSON formatter does not give
  back every node sequence, whatever the host's numerics. The host writes an infinite
  number, which \<open>JSON.parse\<close> gives for a literal such as \<open>1e999\<close>, as \<open>null\<close>, and the
  text decodes to the node sequence with \<open>null\<close> in its place.
\<close>

theorem infinite_number_decodes_to_null_counterexample:
  "\<not> (\<exists>N. \<forall>components'.
         JSON_parse_text N (formatAsReadableJson N components')
         = Inr (JArray (map component_value components')))
   \<and> (\<forall>N. JSON_parse_text N
          (formatAsReadableJson N
             [ParsedComponent ''component'' (JString ''div'') [(''width'', JInfinity True)] None])
        = Inr (JArray (map component_value
             [ParsedComponent ''component'' (JString ''div'') [(''width'', JNull)] None])))"
proof -
  let ?node = "ParsedComponent ''component'' (JString ''div'') [(''width'', JInfinity True)] None"
  have k: "\<not> is_array_index ''type''" "\<not> is_array_index ''component''"
    "\<not> is_array_index ''props''" "\<not> is_array_index ''width''"
    by (simp_all add: is_array_index_def is_digit_def)
  have h: "host_value N (JArray (map component_value [?node]))" for N
    by (simp add: host_keys_def key_before_def k)
  have d: "JSON_parse_text N (formatAsReadableJson N [?node])
        = Inr (JArray (map component_value
             [ParsedComponent ''component'' (JString ''div'') [(''width'', JNull)] None]))" for N
    using formatAsReadableJson_decoded [OF h [of N]] by simp
  have "JSON_parse_text N (formatAsReadableJson N [?node])
        \<noteq> Inr (JArray (map component_value [?node]))" for N
    by (simp add: d)
  then have "\<not> (\<exists>N. \<forall>components'.
         JSON_parse_text N (formatAsReadableJson N components')
         = Inr (JArray (map component_value components')))"
    by blast
  then show ?thesis using d by blast
qed

text \<open>
  Claim C8, amended. For every node sequence whose value is a value of the host (the
  keys of every object distinct and in the host's enumeration order, every finite number
  printed by the host to a literal that is rounded to the number again), decoding the
  output of the JSON formatter as JSON gives the value of the node sequence, field for
  field, if and only if no number in the node sequence is infinite.
\<close>

theorem readable_json_round_trip:
  assumes "host_value N (JArray (map component_value components'))"
  shows "(JSON_parse_text N (formatAsReadableJson N components')
            = Inr (JArray (map component_value components')))
         = finite_value (JArray (map component_value components'))"
  using formatAsReadableJson_decoded [OF assms]
    nullify_fixed [of "JArray (map component_value components')"]
  by simp

theorem readable_json_round_trip_witness:
  "host_value sample_numerics (JArray (map component_value sample_nodes))
   \<and> finite_value (JArray (map component_value sample_nodes))
   \<and> JSON_parse_text sample_numerics (formatAsReadableJson sample_numerics sample_nodes)
       = Inr (JArray (map component_value sample_nodes))"
proof -
  have n: "number_round_trips sample_numerics 42" "number_round_trips sample_numerics (- 3)"
    by (simp_all add: number_round_trips_def sample_numerics_def show_int_rat_42 show_int_rat_minus_3 number_literal_42 number_literal_minus_3)
  have h: "host_value sample_numerics (JArray (map component_value sample_nodes))"
    by (simp add: sample_nodes_def host_keys_def key_before_def sample_keys_index n)
  have f: "finite_value (JArray (map component_value sample_nodes))"
    by (simp add: sample_nodes_def)
  from readable_json_round_trip [OF h] h f show ?thesis by simp
qed

end
